theory Spec2Isabelle
  imports Main
begin

section \<open>JavaScript values, objects and errors\<close>

text \<open>
  The values that reach the helpers of \<^verbatim>\<open>3p/3p.js\<close>. A number is kept as an integer:
  the only thing the code asks of a number is whether it is truthy, and every number
  other than zero and NaN is. \<open>Function f\<close> is the function known by the name \<open>f\<close>;
  \<open>Object\<close> stands for any other object, which cannot be called and has none of the
  methods the code calls.
\<close>

datatype jsval =
  Undefined | Null | Bool bool | Num int | NaN | Str string | Object | Function string

text \<open>ToBoolean: what \<^verbatim>\<open>if (v)\<close> and an assertion test.\<close>

fun truthy :: "jsval \<Rightarrow> bool" where
  "truthy Undefined = False"
| "truthy Null = False"
| "truthy (Bool b) = b"
| "truthy (Num n) = (n \<noteq> 0)"
| "truthy NaN = False"
| "truthy (Str s) = (s \<noteq> [])"
| "truthy Object = True"
| "truthy (Function f) = True"

text \<open>
  An object is the list of the properties visible on it: its own ones first, then those
  of its prototype chain, each name once. \<open>own\<close> is what \<^verbatim>\<open>hasOwnProperty\<close> answers,
  \<open>enumerable\<close> whether \<^verbatim>\<open>for (... in ...)\<close> visits the property.
\<close>

record property =
  name :: string
  val :: jsval
  own :: bool
  enumerable :: bool

type_synonym jsobject = "property list"

text \<open>\<^verbatim>\<open>obj[field]\<close>\<close>

definition js_get :: "jsobject \<Rightarrow> string \<Rightarrow> jsval" where
  "js_get obj field =
     (case find (\<lambda>p. name p = field) obj of None \<Rightarrow> Undefined | Some p \<Rightarrow> val p)"

text \<open>\<^verbatim>\<open>field in obj\<close>: own or inherited, enumerable or not.\<close>

definition js_in :: "string \<Rightarrow> jsobject \<Rightarrow> bool" where
  "js_in field obj = list_ex (\<lambda>p. name p = field) obj"

text \<open>The names \<^verbatim>\<open>for (const field in obj)\<close> visits, in order.\<close>

definition for_in :: "jsobject \<Rightarrow> string list" where
  "for_in obj = map name (filter enumerable obj)"

text \<open>
  \<open>Error\<close> is \<^verbatim>\<open>new Error(message)\<close>; \<open>UserError\<close> is the error of a failed
  \<^verbatim>\<open>user().assert\<close>, with the message template and its arguments; \<open>TypeError\<close> is
  what the language throws when a value that is not a function is called;
  \<open>CallbackError\<close> is whatever a function handed to the code (a callback, a method of
  \<open>data\<close>) threw when it was called with the given argument.
\<close>

datatype error =
    Error string
  | UserError string "jsval list"
  | TypeError string
  | CallbackError string jsval

text \<open>
  The properties that every object inherits from \<^verbatim>\<open>Object.prototype\<close> in a standard
  host, as they are seen on an object such as \<^verbatim>\<open>{}\<close>: none is its own, none is
  enumerable. A host with more of them is a different list; the definitions below take
  the list as the parameter \<open>objectPrototype\<close>.
\<close>

definition standardObjectPrototype :: jsobject where
  "standardObjectPrototype =
     map (\<lambda>(f, v). \<lparr>name = f, val = v, own = False, enumerable = False\<rparr>)
       [(''constructor'', Function ''Object''),
        (''hasOwnProperty'', Function ''Object.prototype.hasOwnProperty''),
        (''isPrototypeOf'', Function ''Object.prototype.isPrototypeOf''),
        (''propertyIsEnumerable'', Function ''Object.prototype.propertyIsEnumerable''),
        (''toLocaleString'', Function ''Object.prototype.toLocaleString''),
        (''toString'', Function ''Object.prototype.toString''),
        (''valueOf'', Function ''Object.prototype.valueOf''),
        (''__proto__'', Object),
        (''__defineGetter__'', Function ''Object.prototype.__defineGetter__''),
        (''__defineSetter__'', Function ''Object.prototype.__defineSetter__''),
        (''__lookupGetter__'', Function ''Object.prototype.__lookupGetter__''),
        (''__lookupSetter__'', Function ''Object.prototype.__lookupSetter__'')]"

text \<open>
  \<^verbatim>\<open>obj.hasOwnProperty(field)\<close>: the property \<^verbatim>\<open>hasOwnProperty\<close> is read from the object
  and called as its method. The built-in function answers whether the object owns the
  field. A value that is not a function (an own field of that name that holds a string,
  or no such property at all on an object without prototype) makes the call a
  \<^verbatim>\<open>TypeError\<close>. What any other function does is the parameter \<open>hostFn\<close>: the value it
  returns for the field, or \<open>None\<close> when it throws.
\<close>

definition hasOwnProperty ::
  "(string \<Rightarrow> string \<Rightarrow> jsval option) \<Rightarrow> jsobject \<Rightarrow> string \<Rightarrow> error + bool" where
  "hasOwnProperty hostFn obj field =
     (case js_get obj ''hasOwnProperty'' of
        Function f \<Rightarrow>
          if f = ''Object.prototype.hasOwnProperty''
          then Inr (list_ex (\<lambda>p. name p = field \<and> own p) obj)
          else (case hostFn f field of
                  None \<Rightarrow> Inl (CallbackError f (Str field))
                | Some v \<Rightarrow> Inr (truthy v))
      | _ \<Rightarrow> Inl (TypeError ''data.hasOwnProperty is not a function''))"

text \<open>
  Modelled from the spec: \<^verbatim>\<open>user().assert\<close> of \<^verbatim>\<open>src/log.js\<close>, which is imported by
  \<^verbatim>\<open>3p/3p.js\<close> and is not part of the sources at hand. The validation helpers are
  "assertion logic" that "throws an exception" when the check fails: the assertion
  returns when its first argument is truthy and throws otherwise.
\<close>

definition user_assert :: "bool \<Rightarrow> string \<Rightarrow> jsval list \<Rightarrow> error + unit" where
  "user_assert shouldBeTrueish message args =
     (if shouldBeTrueish then Inr () else Inl (UserError message args))"

section \<open>Strings and arrays\<close>

text \<open>
  \<^verbatim>\<open>String.prototype.indexOf\<close>: the first position at which the search string occurs, or
  -1. The empty search string occurs at 0.
\<close>

fun indexOf :: "string \<Rightarrow> string \<Rightarrow> int" where
  "indexOf [] t = (if t = [] then 0 else - 1)"
| "indexOf (c # s) t =
     (if take (length t) (c # s) = t then 0
      else (let r = indexOf s t in if r = - 1 then - 1 else r + 1))"

text \<open>\<^verbatim>\<open>Array.prototype.indexOf\<close> on an array of strings.\<close>

fun array_indexOf :: "string list \<Rightarrow> string \<Rightarrow> int" where
  "array_indexOf [] x = - 1"
| "array_indexOf (y # ys) x =
     (if y = x then 0
      else (let r = array_indexOf ys x in if r = - 1 then - 1 else r + 1))"

text \<open>\<^verbatim>\<open>arr[p]\<close>: the element, or undefined (\<open>None\<close>) past the end.\<close>

definition array_get :: "string list \<Rightarrow> nat \<Rightarrow> string option" where
  "array_get arr p = (if p < length arr then Some (arr ! p) else None)"

text \<open>ToString of a string or of undefined, as \<^verbatim>\<open>indexOf\<close> and \<^verbatim>\<open>+\<close> apply it.\<close>

fun toString :: "string option \<Rightarrow> string" where
  "toString None = ''undefined''"
| "toString (Some s) = s"

text \<open>\<^verbatim>\<open>arr.join(sep)\<close>\<close>

fun join :: "string list \<Rightarrow> string \<Rightarrow> string" where
  "join [] sep = []"
| "join [x] sep = x"
| "join (x # y # ys) sep = x @ sep @ join (y # ys) sep"

section \<open>validateSrcPrefix\<close>

text \<open>
  The argument \<^verbatim>\<open>prefix\<close> is a string or an array of strings; \<^verbatim>\<open>isArray\<close>, imported
  from \<^verbatim>\<open>src/types.js\<close>, tells the two apart.
\<close>

datatype prefix_arg = Single string | Many "string list"

text \<open>
  The loop \<^verbatim>\<open>for (let p = 0; p <= prefix.length; p++)\<close>, from the index \<open>p\<close> on: \<open>True\<close>
  when an iteration returns, \<open>False\<close> when the loop runs out.
\<close>

function validateSrcPrefix_loop :: "string list \<Rightarrow> string \<Rightarrow> nat \<Rightarrow> bool" where
  "validateSrcPrefix_loop prefix src p =
     (if p \<le> length prefix then
        (let protocolIndex = indexOf src (toString (array_get prefix p))
         in if protocolIndex = 0 then True
            else validateSrcPrefix_loop prefix src (p + 1))
      else False)"
  by pat_completeness auto
termination
  by (relation "measure (\<lambda>(prefix, src, p). Suc (length prefix) - p)") auto

declare validateSrcPrefix_loop.simps [simp del]

text \<open>\<open>src\<close> is a string, or undefined (\<open>None\<close>).\<close>

definition validateSrcPrefix :: "prefix_arg \<Rightarrow> string option \<Rightarrow> error + unit" where
  "validateSrcPrefix prefix src =
     (let prefix' = (case prefix of Single s \<Rightarrow> [s] | Many ps \<Rightarrow> ps)
      in case src of
           Some s \<Rightarrow>
             if validateSrcPrefix_loop prefix' s 0 then Inr ()
             else Inl (Error (''Invalid src '' @ toString src))
         | None \<Rightarrow> Inl (Error (''Invalid src '' @ toString src)))"

section \<open>validateExactlyOne\<close>

text \<open>The counting loop, with the counter \<^verbatim>\<open>countFileds\<close> as accumulator.\<close>

fun countFileds :: "jsobject \<Rightarrow> string list \<Rightarrow> nat \<Rightarrow> nat" where
  "countFileds data [] n = n"
| "countFileds data (field # rest) n =
     countFileds data rest (if truthy (js_get data field) then n + 1 else n)"

definition validateExactlyOne :: "jsobject \<Rightarrow> string list \<Rightarrow> error + unit" where
  "validateExactlyOne data alternativeFields =
     user_assert (countFileds data alternativeFields 0 = 1)
       ''%s must contain exactly one of attributes: %s.''
       [js_get data ''type'', Str (join alternativeFields '', '')]"

section \<open>validateData\<close>

definition defaultFieldNames :: "string list" where
  "defaultFieldNames =
     [''width'', ''height'', ''type'', ''referrer'', ''canonicalUrl'', ''pageViewId'',
      ''location'', ''mode'', ''consentNotificationId'']"

text \<open>
  The object literal \<^verbatim>\<open>defaultAvailableFields\<close>: nine own properties bound to
  \<^verbatim>\<open>true\<close>, and behind them whatever \<^verbatim>\<open>Object.prototype\<close> holds in the host, which is
  taken as a parameter.
\<close>

definition defaultAvailableFields :: "jsobject \<Rightarrow> jsobject" where
  "defaultAvailableFields objectPrototype =
     map (\<lambda>f. \<lparr>name = f, val = Bool True, own = True, enumerable = True\<rparr>) defaultFieldNames
     @ objectPrototype"

text \<open>The body of the \<^verbatim>\<open>for ... in\<close> loop, over the fields still to visit.\<close>

fun validateData_loop ::
  "jsobject \<Rightarrow> (string \<Rightarrow> string \<Rightarrow> jsval option) \<Rightarrow> jsobject \<Rightarrow> string list \<Rightarrow> string list
     \<Rightarrow> error + unit" where
  "validateData_loop objectPrototype hostFn data allowedFields [] = Inr ()"
| "validateData_loop objectPrototype hostFn data allowedFields (field # rest) =
     (case hasOwnProperty hostFn data field of
        Inl e \<Rightarrow> Inl e
      | Inr owned \<Rightarrow>
          if \<not> owned \<or> js_in field (defaultAvailableFields objectPrototype)
          then validateData_loop objectPrototype hostFn data allowedFields rest
          else (case user_assert (array_indexOf allowedFields field \<noteq> - 1)
                       ''Unknown attribute for %s: %s.'' [js_get data ''type'', Str field] of
                  Inl e \<Rightarrow> Inl e
                | Inr _ \<Rightarrow> validateData_loop objectPrototype hostFn data allowedFields rest))"

definition validateData ::
  "jsobject \<Rightarrow> (string \<Rightarrow> string \<Rightarrow> jsval option) \<Rightarrow> jsobject \<Rightarrow> string list
     \<Rightarrow> error + unit" where
  "validateData objectPrototype hostFn data allowedFields =
     validateData_loop objectPrototype hostFn data allowedFields (for_in data)"

section \<open>computeInMasterFrame\<close>

text \<open>
  A function value (a work function, a callback) is known by its name. What a callback
  does when it is called is its own business; the coordinator sees only whether the call
  returns or throws, which the parameter \<open>throws\<close> of the definitions below tells for
  each callback and result.
\<close>

type_synonym fn = string
type_synonym addr = nat

text \<open>
  The two kinds of object that \<^verbatim>\<open>tasks[taskId]\<close> is bound to: the array of waiting
  callbacks, and the object \<^verbatim>\<open>{push: function(cb) { cb(result); }}\<close> that replaces it,
  which holds the result.
\<close>

datatype obj = Arr "fn list" | Stub jsval

text \<open>What is observed of a run: calls of work functions and calls of callbacks.\<close>

datatype event = WorkCalled string fn nat | CbCalled fn jsval

text \<open>
  The state reachable from the window \<^verbatim>\<open>global.context.master\<close>: its property
  \<^verbatim>\<open>__ampMasterTasks\<close> (\<open>None\<close> while undefined), the objects allocated so far, and
  the completion functions \<^verbatim>\<open>result => {...}\<close> created so far, each with the variables
  \<^verbatim>\<open>cbs\<close> and \<^verbatim>\<open>taskId\<close> it has captured. \<open>WorkCalled taskId work n\<close> records that
  \<open>work\<close> was called with the completion function number \<open>n\<close>. What the work function
  does with it shows as \<open>Complete\<close> actions below.

  The registry \<^verbatim>\<open>{}\<close> is kept as the map of its own properties, from task identifiers to
  addresses; what it inherits is the parameter \<open>objectPrototype\<close> of the definitions
  below. No inherited value has a method \<^verbatim>\<open>push\<close>: no value of \<open>jsval\<close> has one.
\<close>

record master =
  ampMasterTasks :: "(string \<rightharpoonup> addr) option"
  heap :: "addr \<Rightarrow> obj"
  nextAddr :: addr
  completions :: "(addr \<times> string) list"
  trace :: "event list"

text \<open>\<^verbatim>\<open>global.context\<close>, whose \<^verbatim>\<open>master\<close> is the window above.\<close>

record global =
  isMaster :: bool

text \<open>\<^verbatim>\<open>cb(result)\<close>: the call is observed, then it returns or throws.\<close>

definition invoke ::
  "(fn \<Rightarrow> jsval \<Rightarrow> bool) \<Rightarrow> fn \<Rightarrow> jsval \<Rightarrow> master \<Rightarrow> (error \<times> master) + master" where
  "invoke throws cb result s =
     (let s' = s\<lparr>trace := trace s @ [CbCalled cb result]\<rparr>
      in if throws cb result then Inl (CallbackError cb result, s') else Inr s')"

text \<open>\<^verbatim>\<open>cbs.push(cb)\<close>, on the array or on the object that replaced it.\<close>

definition push ::
  "(fn \<Rightarrow> jsval \<Rightarrow> bool) \<Rightarrow> addr \<Rightarrow> fn \<Rightarrow> master \<Rightarrow> (error \<times> master) + master" where
  "push throws cbs cb s =
     (case heap s cbs of
        Arr xs \<Rightarrow> Inr (s\<lparr>heap := (heap s)(cbs := Arr (xs @ [cb]))\<rparr>)
      | Stub result \<Rightarrow> invoke throws cb result s)"

text \<open>
  The loop \<^verbatim>\<open>for (let i = 0; i < cbs.length; i++) cbs[i].call(null, result)\<close>, from
  the index \<open>i\<close> on. The object that replaced the array has no \<^verbatim>\<open>length\<close>, and
  \<^verbatim>\<open>i < undefined\<close> is false.
\<close>

function fanout ::
  "(fn \<Rightarrow> jsval \<Rightarrow> bool) \<Rightarrow> addr \<Rightarrow> jsval \<Rightarrow> nat \<Rightarrow> master \<Rightarrow> (error \<times> master) + master" where
  "fanout throws cbs result i s =
     (case heap s cbs of
        Stub _ \<Rightarrow> Inr s
      | Arr xs \<Rightarrow>
          if i < length xs then
            (case invoke throws (xs ! i) result s of
               Inl e \<Rightarrow> Inl e
             | Inr s' \<Rightarrow> fanout throws cbs result (i + 1) s')
          else Inr s)"
  by pat_completeness auto
termination
  by (relation "measure (\<lambda>(throws, cbs, result, i, s).
        case heap s cbs of Arr xs \<Rightarrow> length xs - i | Stub _ \<Rightarrow> 0)")
     (auto simp: invoke_def Let_def split: if_splits)

declare fanout.simps [simp del]

text \<open>The object \<^verbatim>\<open>tasks\<close> that the call and its completion function work on.\<close>

definition tasks_of :: "master \<Rightarrow> string \<rightharpoonup> addr" where
  "tasks_of s = (case ampMasterTasks s of None \<Rightarrow> Map.empty | Some tasks \<Rightarrow> tasks)"

text \<open>
  The completion function \<^verbatim>\<open>result => {...}\<close> that has captured \<open>cbs\<close> and \<open>taskId\<close>:
  the fan-out, then the entry is bound to a new object holding the result. A callback
  that throws ends the function there.
\<close>

definition completion ::
  "(fn \<Rightarrow> jsval \<Rightarrow> bool) \<Rightarrow> addr \<times> string \<Rightarrow> jsval \<Rightarrow> master \<Rightarrow> (error \<times> master) + master" where
  "completion throws closure result s =
     (case closure of (cbs, taskId) \<Rightarrow>
        (case fanout throws cbs result 0 s of
           Inl e \<Rightarrow> Inl e
         | Inr s' \<Rightarrow>
             Inr (s'\<lparr>ampMasterTasks := Some ((tasks_of s')(taskId \<mapsto> nextAddr s')),
                     heap := (heap s')(nextAddr s' := Stub result),
                     nextAddr := nextAddr s' + 1\<rparr>)))"

text \<open>
  \<^verbatim>\<open>computeInMasterFrame\<close> from \<^verbatim>\<open>cbs.push(cb)\<close> on, with \<open>cbs\<close> the array or the object
  at an address: the callback is pushed; a context that is not the master returns; in the
  master \<open>work\<close> is called with a new completion function. A work function that throws at
  once changes nothing in the state of the master.
\<close>

definition push_and_work ::
  "(fn \<Rightarrow> jsval \<Rightarrow> bool) \<Rightarrow> global \<Rightarrow> string \<Rightarrow> fn \<Rightarrow> fn \<Rightarrow> addr \<Rightarrow> master
     \<Rightarrow> (error \<times> master) + master" where
  "push_and_work throws glob taskId work cb cbs s =
     (case push throws cbs cb s of
        Inl e \<Rightarrow> Inl e
      | Inr s' \<Rightarrow>
          if \<not> isMaster glob then Inr s'
          else Inr (s'\<lparr>completions := completions s' @ [(cbs, taskId)],
                       trace := trace s' @ [WorkCalled taskId work (length (completions s'))]\<rparr>))"

text \<open>
  \<^verbatim>\<open>computeInMasterFrame(global, taskId, work, cb)\<close>: the registry is read from the master
  and created as \<^verbatim>\<open>{}\<close> when it is missing; then \<^verbatim>\<open>tasks[taskId]\<close> is read. An entry of
  the registry's own is the array or the object bound to it. Without one the read gives
  what \<^verbatim>\<open>{}\<close> inherits under that name (\<^verbatim>\<open>toString\<close>, \<^verbatim>\<open>constructor\<close>, ...): a truthy
  inherited value is taken for the entry, no array is bound, and \<^verbatim>\<open>cbs.push(cb)\<close> throws
  a \<^verbatim>\<open>TypeError\<close>, since the inherited value has no method \<^verbatim>\<open>push\<close>; when nothing truthy
  is inherited, an empty array is bound to \<open>taskId\<close> first.
\<close>

definition computeInMasterFrame ::
  "(fn \<Rightarrow> jsval \<Rightarrow> bool) \<Rightarrow> jsobject \<Rightarrow> global \<Rightarrow> string \<Rightarrow> fn \<Rightarrow> fn \<Rightarrow> master
     \<Rightarrow> (error \<times> master) + master" where
  "computeInMasterFrame throws objectPrototype glob taskId work cb s =
     (let tasks = tasks_of s;
          s1 = s\<lparr>ampMasterTasks := Some tasks\<rparr>
      in case tasks taskId of
           Some a \<Rightarrow> push_and_work throws glob taskId work cb a s1
         | None \<Rightarrow>
             if truthy (js_get objectPrototype taskId)
             then Inl (TypeError ''cbs.push is not a function'', s1)
             else push_and_work throws glob taskId work cb (nextAddr s1)
                    (s1\<lparr>ampMasterTasks := Some (tasks(taskId \<mapsto> nextAddr s1)),
                        heap := (heap s1)(nextAddr s1 := Arr []),
                        nextAddr := nextAddr s1 + 1\<rparr>))"

text \<open>
  What happens to the master over time: contexts call \<^verbatim>\<open>computeInMasterFrame\<close>, and
  work functions call the completion functions they were given, at any later moment and
  any number of times. An exception reaches the caller and leaves the state as it is
  at the throw.
\<close>

datatype action = Call global string fn fn | Complete nat jsval

fun state_of :: "(error \<times> master) + master \<Rightarrow> master" where
  "state_of (Inl (e, s)) = s"
| "state_of (Inr s) = s"

fun perform ::
  "(fn \<Rightarrow> jsval \<Rightarrow> bool) \<Rightarrow> jsobject \<Rightarrow> master \<Rightarrow> action \<Rightarrow> master" where
  "perform throws objectPrototype s (Call glob taskId work cb) =
     state_of (computeInMasterFrame throws objectPrototype glob taskId work cb s)"
| "perform throws objectPrototype s (Complete n result) =
     (if n < length (completions s)
      then state_of (completion throws (completions s ! n) result s)
      else s)"

definition run ::
  "(fn \<Rightarrow> jsval \<Rightarrow> bool) \<Rightarrow> jsobject \<Rightarrow> action list \<Rightarrow> master \<Rightarrow> master" where
  "run throws objectPrototype actions s = foldl (perform throws objectPrototype) s actions"

text \<open>A master window on which nothing has been computed yet.\<close>

definition new_master :: master where
  "new_master = \<lparr>ampMasterTasks = None, heap = (\<lambda>_. Arr []), nextAddr = 0,
                  completions = [], trace = []\<rparr>"

text \<open>What \<^verbatim>\<open>tasks[taskId]\<close> is bound to, if anything.\<close>

definition entry :: "master \<Rightarrow> string \<Rightarrow> obj option" where
  "entry s taskId = map_option (heap s) (tasks_of s taskId)"

fun is_work_for :: "string \<Rightarrow> event \<Rightarrow> bool" where
  "is_work_for taskId (WorkCalled taskId' _ _) = (taskId' = taskId)"
| "is_work_for taskId (CbCalled _ _) = False"

text \<open>How often a work function has been called for \<open>taskId\<close>.\<close>

definition work_calls :: "string \<Rightarrow> master \<Rightarrow> nat" where
  "work_calls taskId s = length (filter (is_work_for taskId) (trace s))"

text \<open>The callback calls observed, in order.\<close>

fun cb_calls :: "event list \<Rightarrow> (fn \<times> jsval) list" where
  "cb_calls [] = []"
| "cb_calls (WorkCalled _ _ _ # es) = cb_calls es"
| "cb_calls (CbCalled cb r # es) = (cb, r) # cb_calls es"

text \<open>The calls for \<open>taskId\<close> that the master context makes.\<close>

fun is_master_call :: "string \<Rightarrow> action \<Rightarrow> bool" where
  "is_master_call taskId (Call glob taskId' _ _) = (isMaster glob \<and> taskId' = taskId)"
| "is_master_call taskId (Complete _ _) = False"

text \<open>
  The fan-out over the callbacks \<open>xs\<close> read from the array. A callback of the model
  cannot change the array, so the loop above, which reads the array anew in each
  iteration, does the same (lemma \<open>fanout_deliver\<close>).
\<close>

fun deliver ::
  "(fn \<Rightarrow> jsval \<Rightarrow> bool) \<Rightarrow> jsval \<Rightarrow> fn list \<Rightarrow> master \<Rightarrow> (error \<times> master) + master" where
  "deliver throws result [] s = Inr s"
| "deliver throws result (cb # xs) s =
     (case invoke throws cb result s of
        Inl e \<Rightarrow> Inl e
      | Inr s' \<Rightarrow> deliver throws result xs s')"

text \<open>
  The callbacks that a fan-out over \<open>xs\<close> calls: all up to and including the first one
  that throws.
\<close>

fun until_throw :: "(fn \<Rightarrow> jsval \<Rightarrow> bool) \<Rightarrow> jsval \<Rightarrow> fn list \<Rightarrow> fn list" where
  "until_throw throws result [] = []"
| "until_throw throws result (cb # xs) =
     cb # (if throws cb result then [] else until_throw throws result xs)"

text \<open>
  The entries of the registry are bound to allocated objects, and different entries to
  different objects. This holds of \<open>new_master\<close> and every call and completion keeps
  it (lemma \<open>well_formed_run\<close>).
\<close>

definition well_formed :: "master \<Rightarrow> bool" where
  "well_formed s \<longleftrightarrow> (\<forall>k a. tasks_of s k = Some a \<longrightarrow> a < nextAddr s)
            \<and> (\<forall>k k' a. tasks_of s k = Some a \<and> tasks_of s k' = Some a \<longrightarrow> k = k')"

text \<open>The callbacks that the calls for \<open>taskId\<close> among the actions pass, in order.\<close>

fun cbs_for :: "string \<Rightarrow> action list \<Rightarrow> fn list" where
  "cbs_for taskId [] = []"
| "cbs_for taskId (Call glob taskId' work cb # actions) =
     (if taskId' = taskId then cb # cbs_for taskId actions else cbs_for taskId actions)"
| "cbs_for taskId (Complete n result # actions) = cbs_for taskId actions"

text \<open>
  None of the actions, performed in turn from the state \<open>s\<close>, calls a completion
  function that was created for \<open>taskId\<close>.
\<close>

fun no_completion_for ::
  "(fn \<Rightarrow> jsval \<Rightarrow> bool) \<Rightarrow> jsobject \<Rightarrow> string \<Rightarrow> master \<Rightarrow> action list \<Rightarrow> bool" where
  "no_completion_for throws objectPrototype taskId s [] = True"
| "no_completion_for throws objectPrototype taskId s (Call glob taskId' work cb # actions) =
     no_completion_for throws objectPrototype taskId
       (perform throws objectPrototype s (Call glob taskId' work cb)) actions"
| "no_completion_for throws objectPrototype taskId s (Complete n result # actions) =
     ((n < length (completions s) \<longrightarrow> snd (completions s ! n) \<noteq> taskId)
      \<and> no_completion_for throws objectPrototype taskId
            (perform throws objectPrototype s (Complete n result)) actions)"

text \<open>
  An action is for \<open>taskId\<close> when it is a call of \<^verbatim>\<open>computeInMasterFrame\<close> with that
  identifier or calls a completion function that was created for it. The events of
  \<open>taskId\<close> are those that the actions for it add to the trace while the actions are
  performed in turn from the state \<open>s\<close>.
\<close>

fun action_for :: "string \<Rightarrow> master \<Rightarrow> action \<Rightarrow> bool" where
  "action_for taskId s (Call glob taskId' work cb) = (taskId' = taskId)"
| "action_for taskId s (Complete n result) =
     (n < length (completions s) \<and> snd (completions s ! n) = taskId)"

fun events_for ::
  "(fn \<Rightarrow> jsval \<Rightarrow> bool) \<Rightarrow> jsobject \<Rightarrow> string \<Rightarrow> master \<Rightarrow> action list \<Rightarrow> event list" where
  "events_for throws objectPrototype taskId s [] = []"
| "events_for throws objectPrototype taskId s (a # actions) =
     (if action_for taskId s a
      then drop (length (trace s)) (trace (perform throws objectPrototype s a))
      else [])
     @ events_for throws objectPrototype taskId (perform throws objectPrototype s a) actions"

text \<open>
  The callbacks waiting for \<open>taskId\<close>: none while there is no entry, the array while
  there is one; \<open>None\<close> once the entry is resolved.
\<close>

definition waiting :: "master \<Rightarrow> string \<Rightarrow> fn list option" where
  "waiting s taskId =
     (case entry s taskId of
        None \<Rightarrow> Some []
      | Some (Arr xs) \<Rightarrow> Some xs
      | Some (Stub result) \<Rightarrow> None)"

text \<open>
  The completion functions created for \<open>taskId\<close> from number \<open>n0\<close> on have captured the
  object that the entry is bound to.
\<close>

definition own_closures :: "nat \<Rightarrow> string \<Rightarrow> master \<Rightarrow> bool" where
  "own_closures n0 taskId s \<longleftrightarrow>
     (\<forall>i. n0 \<le> i \<and> i < length (completions s) \<and> snd (completions s ! i) = taskId
          \<longrightarrow> tasks_of s taskId = Some (fst (completions s ! i)))"

text \<open>The calling contexts and the callbacks of the example runs.\<close>

abbreviation inMaster :: global where
  "inMaster \<equiv> \<lparr>isMaster = True\<rparr>"

abbreviation inOther :: global where
  "inOther \<equiv> \<lparr>isMaster = False\<rparr>"

abbreviation never :: "fn \<Rightarrow> jsval \<Rightarrow> bool" where
  "never \<equiv> (\<lambda>cb result. False)"

section \<open>Properties of the validation helpers\<close>

lemma indexOf_ge: "- 1 \<le> indexOf s t"
  by (induction s) (auto simp: Let_def)

lemma indexOf_zero: "indexOf s t = 0 \<longleftrightarrow> take (length t) s = t"
proof (cases s)
  case Nil
  then show ?thesis by auto
next
  case (Cons c s')
  have "- 1 \<le> indexOf s' t" by (rule indexOf_ge)
  then have "indexOf s' t \<noteq> - 1 \<Longrightarrow> indexOf s' t + 1 \<noteq> 0" by arith
  with Cons show ?thesis by (auto simp: Let_def)
qed

lemma array_indexOf_ge: "- 1 \<le> array_indexOf ys x"
  by (induction ys) (auto simp: Let_def)

lemma array_indexOf_mem: "array_indexOf ys x \<noteq> - 1 \<longleftrightarrow> x \<in> set ys"
proof (induction ys)
  case Nil
  then show ?case by simp
next
  case (Cons y ys)
  have "- 1 \<le> array_indexOf ys x" by (rule array_indexOf_ge)
  then have "array_indexOf ys x \<noteq> - 1 \<Longrightarrow> array_indexOf ys x + 1 \<noteq> - 1" by arith
  with Cons show ?case by (auto simp: Let_def)
qed

lemma validateSrcPrefix_loop_iff:
  "validateSrcPrefix_loop prefix src p \<longleftrightarrow>
     (\<exists>q. p \<le> q \<and> q \<le> length prefix \<and> indexOf src (toString (array_get prefix q)) = 0)"
proof (induction prefix src p rule: validateSrcPrefix_loop.induct)
  case (1 prefix src p)
  show ?case
  proof (cases "p \<le> length prefix")
    case False
    then show ?thesis
      by (subst validateSrcPrefix_loop.simps) auto
  next
    case True
    show ?thesis
    proof (cases "indexOf src (toString (array_get prefix p)) = 0")
      case hit: True
      with True show ?thesis
        by (subst validateSrcPrefix_loop.simps) (auto simp: Let_def)
    next
      case miss: False
      have "validateSrcPrefix_loop prefix src p = validateSrcPrefix_loop prefix src (p + 1)"
        using True miss by (subst validateSrcPrefix_loop.simps) (simp add: Let_def)
      also have "\<dots> \<longleftrightarrow> (\<exists>q. p + 1 \<le> q \<and> q \<le> length prefix
                  \<and> indexOf src (toString (array_get prefix q)) = 0)"
        using "1.IH" [OF True refl miss] .
      also have "\<dots> \<longleftrightarrow> (\<exists>q. p \<le> q \<and> q \<le> length prefix
                  \<and> indexOf src (toString (array_get prefix q)) = 0)"
      proof
        assume "\<exists>q. p + 1 \<le> q \<and> q \<le> length prefix
                  \<and> indexOf src (toString (array_get prefix q)) = 0"
        then show "\<exists>q. p \<le> q \<and> q \<le> length prefix
                  \<and> indexOf src (toString (array_get prefix q)) = 0"
          by (meson add_leD1)
      next
        assume "\<exists>q. p \<le> q \<and> q \<le> length prefix
                  \<and> indexOf src (toString (array_get prefix q)) = 0"
        then obtain q where q: "p \<le> q" "q \<le> length prefix"
          "indexOf src (toString (array_get prefix q)) = 0" by blast
        with miss have "q \<noteq> p" by auto
        with q show "\<exists>q. p + 1 \<le> q \<and> q \<le> length prefix
                  \<and> indexOf src (toString (array_get prefix q)) = 0"
          by (intro exI [of _ q]) simp
      qed
      finally show ?thesis .
    qed
  qed
qed

lemma countFileds_filter:
  "countFileds data fs n = n + length (filter (\<lambda>field. truthy (js_get data field)) fs)"
  by (induction fs arbitrary: n) auto

lemma hasOwnProperty_error:
  "hasOwnProperty hostFn data field = Inl e \<Longrightarrow>
     e = TypeError ''data.hasOwnProperty is not a function''
     \<or> (\<exists>f. js_get data ''hasOwnProperty'' = Function f \<and> hostFn f field = None
            \<and> e = CallbackError f (Str field))"
  by (auto simp: hasOwnProperty_def split: jsval.splits if_splits option.splits)

lemma validateData_loop_rejects:
  "validateData_loop objectPrototype hostFn data allowedFields fs = Inl e \<Longrightarrow>
     e = TypeError ''data.hasOwnProperty is not a function''
     \<or> (\<exists>f field. js_get data ''hasOwnProperty'' = Function f \<and> hostFn f field = None
            \<and> e = CallbackError f (Str field))
     \<or> (\<exists>field \<in> set fs.
          e = UserError ''Unknown attribute for %s: %s.'' [js_get data ''type'', Str field]
          \<and> hasOwnProperty hostFn data field = Inr True
          \<and> \<not> js_in field (defaultAvailableFields objectPrototype)
          \<and> field \<notin> set allowedFields)"
proof (induction fs)
  case Nil
  then show ?case by simp
next
  case (Cons f fs)
  show ?case
  proof (cases "hasOwnProperty hostFn data f")
    case (Inl e')
    with Cons.prems have "e' = e" by simp
    with Inl hasOwnProperty_error [of hostFn data f e] show ?thesis by blast
  next
    case (Inr owned)
    show ?thesis
    proof (cases "\<not> owned \<or> js_in f (defaultAvailableFields objectPrototype)")
      case True
      with Inr Cons.prems have "validateData_loop objectPrototype hostFn data allowedFields fs = Inl e"
        by auto
      from Cons.IH [OF this] show ?thesis by auto
    next
      case skip: False
      show ?thesis
      proof (cases "array_indexOf allowedFields f \<noteq> - 1")
        case True
        with skip Inr Cons.prems
        have "validateData_loop objectPrototype hostFn data allowedFields fs = Inl e"
          by (auto simp: user_assert_def)
        from Cons.IH [OF this] show ?thesis by auto
      next
        case False
        then have "f \<notin> set allowedFields" using array_indexOf_mem [of allowedFields f] by simp
        with False skip Inr Cons.prems show ?thesis by (auto simp: user_assert_def)
      qed
    qed
  qed
qed

lemma js_in_default: "field \<in> set defaultFieldNames \<Longrightarrow> js_in field (defaultAvailableFields objectPrototype)"
  by (force simp: js_in_def defaultAvailableFields_def list_ex_iff)

section \<open>Claims about the validation helpers\<close>

text \<open>
  C7. In \<^verbatim>\<open>validateSrcPrefix\<close> the loop over the prefix list runs with the index from 0 up
  to and including the length of the list (\<^verbatim>\<open>p <= prefix.length\<close>), so its last
  iteration reads one index past the end: the source is accepted exactly when one of the
  reads at the indices \<open>0, \<dots>, length prefix\<close> gives a string it starts with, the read at
  the index \<open>length prefix\<close> gives undefined, and so a source starting with the text
  "undefined" is accepted whatever the prefixes are. A prefix given as a single string is
  the list of that one string.
\<close>

theorem validateSrcPrefix_reads_past_end:
  "(validateSrcPrefix (Many prefix) (Some src) = Inr ()) =
      (\<exists>p. p \<le> length prefix \<and> indexOf src (toString (array_get prefix p)) = 0)
   \<and> array_get prefix (length prefix) = None
   \<and> (validateSrcPrefix (Many prefix) (Some src) = Inr ()) =
      ((\<exists>p. p < length prefix \<and> indexOf src (prefix ! p) = 0) \<or> indexOf src ''undefined'' = 0)
   \<and> validateSrcPrefix (Single single) (Some src) = validateSrcPrefix (Many [single]) (Some src)"
proof -
  have loop: "(validateSrcPrefix (Many prefix) (Some src) = Inr ()) =
      (\<exists>p. p \<le> length prefix \<and> indexOf src (toString (array_get prefix p)) = 0)"
    by (simp add: validateSrcPrefix_def validateSrcPrefix_loop_iff)
  have split: "(\<exists>p. p \<le> length prefix \<and> indexOf src (toString (array_get prefix p)) = 0) =
      ((\<exists>p. p < length prefix \<and> indexOf src (prefix ! p) = 0) \<or> indexOf src ''undefined'' = 0)"
  proof
    assume "\<exists>p. p \<le> length prefix \<and> indexOf src (toString (array_get prefix p)) = 0"
    then obtain p where p: "p \<le> length prefix"
      "indexOf src (toString (array_get prefix p)) = 0" by blast
    show "(\<exists>p. p < length prefix \<and> indexOf src (prefix ! p) = 0) \<or> indexOf src ''undefined'' = 0"
    proof (cases "p < length prefix")
      case True
      with p show ?thesis by (auto simp: array_get_def)
    next
      case False
      with p show ?thesis by (simp add: array_get_def)
    qed
  next
    assume "(\<exists>p. p < length prefix \<and> indexOf src (prefix ! p) = 0) \<or> indexOf src ''undefined'' = 0"
    then show "\<exists>p. p \<le> length prefix \<and> indexOf src (toString (array_get prefix p)) = 0"
    proof
      assume "\<exists>p. p < length prefix \<and> indexOf src (prefix ! p) = 0"
      then obtain p where "p < length prefix" "indexOf src (prefix ! p) = 0" by blast
      then show ?thesis by (intro exI [of _ p]) (simp add: array_get_def)
    next
      assume "indexOf src ''undefined'' = 0"
      then show ?thesis by (intro exI [of _ "length prefix"]) (simp add: array_get_def)
    qed
  qed
  have single: "validateSrcPrefix (Single single) (Some src)
      = validateSrcPrefix (Many [single]) (Some src)"
    by (simp add: validateSrcPrefix_def)
  show ?thesis using loop split single by (simp add: array_get_def)
qed

text \<open>
  The read past the end at work: no prefix matches, and the source is accepted because
  it starts with the text that undefined converts to.
\<close>

lemma validateSrcPrefix_undefined_accepted:
  "validateSrcPrefix (Many [''https://cdn.example.com/'']) (Some ''undefined/x.js'') = Inr ()"
proof -
  have "indexOf ''undefined/x.js'' ''undefined'' = 0" by simp
  then have "\<exists>p. p \<le> length [''https://cdn.example.com/''] \<and>
      indexOf ''undefined/x.js'' (toString (array_get [''https://cdn.example.com/''] p)) = 0"
    by (intro exI [of _ 1]) (simp add: array_get_def)
  then show ?thesis by (simp add: validateSrcPrefix_def validateSrcPrefix_loop_iff)
qed

text \<open>
  C9. \<^verbatim>\<open>validateSrcPrefix\<close> always throws when \<open>src\<close> is undefined: whatever the prefix
  argument is, a string or an array, the scan is skipped and the error "Invalid src
  undefined" is thrown.
\<close>

theorem validateSrcPrefix_undefined_src_throws:
  "validateSrcPrefix prefix None = Inl (Error ''Invalid src undefined'')"
  by (simp add: validateSrcPrefix_def)

text \<open>
  C10. \<^verbatim>\<open>validateExactlyOne\<close> counts the listed fields whose value in \<open>data\<close> is truthy:
  the assertion passes exactly when one entry of \<open>alternativeFields\<close> has a truthy value,
  and it fails otherwise; a field bound to 0, the empty string, false, null or undefined
  is not truthy and does not count.
\<close>

theorem validateExactlyOne_counts_truthy:
  "validateExactlyOne data alternativeFields =
     (if length (filter (\<lambda>field. truthy (js_get data field)) alternativeFields) = 1
      then Inr ()
      else Inl (UserError ''%s must contain exactly one of attributes: %s.''
                  [js_get data ''type'', Str (join alternativeFields '', '')]))
   \<and> countFileds data (field # rest) n =
       countFileds data rest (if truthy (js_get data field) then n + 1 else n)
   \<and> \<not> truthy (Num 0) \<and> \<not> truthy (Str []) \<and> \<not> truthy (Bool False)
   \<and> \<not> truthy Null \<and> \<not> truthy Undefined"
  by (simp add: validateExactlyOne_def user_assert_def countFileds_filter)

text \<open>
  C8. \<^verbatim>\<open>validateData\<close> never rejects one of the nine default fields: whatever \<open>data\<close>
  and \<open>allowedFields\<close> are, when the unknown-attribute assertion fires it does so for a
  field that \<open>data\<close> owns, that is not a default field and that is not listed in
  \<open>allowedFields\<close>. The only other ways out of \<^verbatim>\<open>validateData\<close> are those of the call
  \<^verbatim>\<open>data.hasOwnProperty(field)\<close>: a \<^verbatim>\<open>TypeError\<close> when \<open>data\<close> has no such method, and
  what a method of that name other than the built-in one throws.
\<close>

theorem validateData_never_rejects_defaults:
  assumes "validateData objectPrototype hostFn data allowedFields = Inl e"
  shows "e = TypeError ''data.hasOwnProperty is not a function''
     \<or> (\<exists>f field. js_get data ''hasOwnProperty'' = Function f \<and> hostFn f field = None
            \<and> e = CallbackError f (Str field))
     \<or> (\<exists>field. e = UserError ''Unknown attribute for %s: %s.'' [js_get data ''type'', Str field]
           \<and> field \<notin> set defaultFieldNames
           \<and> field \<in> set (for_in data)
           \<and> hasOwnProperty hostFn data field = Inr True
           \<and> field \<notin> set allowedFields)"
proof -
  from validateData_loop_rejects [OF assms [unfolded validateData_def]]
  consider "e = TypeError ''data.hasOwnProperty is not a function''"
    | "\<exists>f field. js_get data ''hasOwnProperty'' = Function f \<and> hostFn f field = None
            \<and> e = CallbackError f (Str field)"
    | field where "field \<in> set (for_in data)"
        "e = UserError ''Unknown attribute for %s: %s.'' [js_get data ''type'', Str field]"
        "hasOwnProperty hostFn data field = Inr True"
        "\<not> js_in field (defaultAvailableFields objectPrototype)"
        "field \<notin> set allowedFields"
    by blast
  then show ?thesis
  proof cases
    case 1
    then show ?thesis by simp
  next
    case 2
    then show ?thesis by simp
  next
    case 3
    from 3(4) have "field \<notin> set defaultFieldNames" using js_in_default by blast
    with 3 show ?thesis by blast
  qed
qed

theorem validateData_never_rejects_defaults_witness:
  "validateData standardObjectPrototype (\<lambda>f field. None)
     ([\<lparr>name = ''width'', val = Num 300, own = True, enumerable = True\<rparr>,
       \<lparr>name = ''slot'', val = Str ''a'', own = True, enumerable = True\<rparr>]
      @ standardObjectPrototype) []
     = Inl (UserError ''Unknown attribute for %s: %s.'' [Undefined, Str ''slot''])
   \<and> ''slot'' \<notin> set defaultFieldNames"
proof -
  have h: "validateData standardObjectPrototype (\<lambda>f field. None)
     ([\<lparr>name = ''width'', val = Num 300, own = True, enumerable = True\<rparr>,
       \<lparr>name = ''slot'', val = Str ''a'', own = True, enumerable = True\<rparr>]
      @ standardObjectPrototype) []
     = Inl (UserError ''Unknown attribute for %s: %s.'' [Undefined, Str ''slot''])"
    by (simp add: validateData_def for_in_def hasOwnProperty_def js_in_def js_get_def
        defaultAvailableFields_def defaultFieldNames_def user_assert_def
        standardObjectPrototype_def)
  from validateData_never_rejects_defaults [OF h] h show ?thesis by auto
qed

text \<open>
  An own field named \<^verbatim>\<open>hasOwnProperty\<close> that holds a string shadows the method: the
  call throws while the first field, a default one, is visited.
\<close>

lemma validateData_shadowed_hasOwnProperty:
  "validateData standardObjectPrototype (\<lambda>f field. None)
     [\<lparr>name = ''width'', val = Num 300, own = True, enumerable = True\<rparr>,
      \<lparr>name = ''hasOwnProperty'', val = Str ''x'', own = True, enumerable = True\<rparr>] []
     = Inl (TypeError ''data.hasOwnProperty is not a function'')"
  by (simp add: validateData_def for_in_def hasOwnProperty_def js_get_def)

section \<open>Properties of the coordination primitive\<close>

lemma invoke_heap:
  "invoke throws cb r s = Inr s' \<Longrightarrow> heap s' = heap s"
  by (auto simp: invoke_def Let_def split: if_splits)

lemma fanout_deliver:
  "fanout throws cbs r i s =
     (case heap s cbs of Stub _ \<Rightarrow> Inr s | Arr xs \<Rightarrow> deliver throws r (drop i xs) s)"
proof (induction throws cbs r i s rule: fanout.induct)
  case (1 throws cbs r i s)
  show ?case
  proof (cases "heap s cbs")
    case (Stub v)
    then show ?thesis by (subst fanout.simps) simp
  next
    case (Arr xs)
    show ?thesis
    proof (cases "i < length xs")
      case False
      with Arr show ?thesis by (subst fanout.simps) simp
    next
      case True
      then have d: "drop i xs = xs ! i # drop (i + 1) xs"
        by (simp add: Cons_nth_drop_Suc)
      show ?thesis
      proof (cases "invoke throws (xs ! i) r s")
        case (Inl e)
        with Arr True d show ?thesis by (subst fanout.simps) simp
      next
        case (Inr s')
        have h: "heap s' = heap s" using Inr by (rule invoke_heap)
        have "fanout throws cbs r (i + 1) s' =
              (case heap s' cbs of Stub _ \<Rightarrow> Inr s' | Arr xs \<Rightarrow> deliver throws r (drop (i + 1) xs) s')"
          using "1.IH" [OF Arr True Inr] .
        with Arr True d Inr h show ?thesis by (subst fanout.simps) simp
      qed
    qed
  qed
qed

lemma deliver_all:
  "\<forall>cb \<in> set xs. \<not> throws cb r \<Longrightarrow>
     deliver throws r xs s = Inr (s\<lparr>trace := trace s @ map (\<lambda>cb. CbCalled cb r) xs\<rparr>)"
  by (induction xs arbitrary: s) (auto simp: invoke_def Let_def)

lemma deliver_throw:
  "\<forall>cb \<in> set pre. \<not> throws cb r \<Longrightarrow> throws b r \<Longrightarrow>
     deliver throws r (pre @ b # post) s =
       Inl (CallbackError b r, s\<lparr>trace := trace s @ map (\<lambda>cb. CbCalled cb r) (pre @ [b])\<rparr>)"
  by (induction pre arbitrary: s) (auto simp: invoke_def Let_def)

lemma until_throw_all: "\<forall>cb \<in> set xs. \<not> throws cb r \<Longrightarrow> until_throw throws r xs = xs"
  by (induction xs) auto

lemma until_throw_prefix: "until_throw throws r xs = take (length (until_throw throws r xs)) xs"
  by (induction xs) auto

lemma deliver_until_throw:
  "state_of (deliver throws r xs s)
     = s\<lparr>trace := trace s @ map (\<lambda>cb. CbCalled cb r) (until_throw throws r xs)\<rparr>"
  by (induction xs arbitrary: s) (auto simp: invoke_def Let_def)

lemma run_Nil [simp]: "run throws P [] s = s"
  by (simp add: run_def)

lemma run_Cons [simp]: "run throws P (a # as) s = run throws P as (perform throws P s a)"
  by (simp add: run_def)

lemma run_append [simp]: "run throws P (as @ bs) s = run throws P bs (run throws P as s)"
  by (simp add: run_def)

lemma call_absent:
  "tasks_of s k = None \<Longrightarrow> \<not> truthy (js_get P k) \<Longrightarrow>
   computeInMasterFrame throws P g k w cb s =
     Inr (if isMaster g
          then s\<lparr>ampMasterTasks := Some ((tasks_of s)(k \<mapsto> nextAddr s)),
                 heap := (heap s)(nextAddr s := Arr [cb]),
                 nextAddr := nextAddr s + 1,
                 completions := completions s @ [(nextAddr s, k)],
                 trace := trace s @ [WorkCalled k w (length (completions s))]\<rparr>
          else s\<lparr>ampMasterTasks := Some ((tasks_of s)(k \<mapsto> nextAddr s)),
                 heap := (heap s)(nextAddr s := Arr [cb]),
                 nextAddr := nextAddr s + 1\<rparr>)"
  by (simp add: computeInMasterFrame_def push_and_work_def push_def Let_def)

lemma call_inherited:
  "tasks_of s k = None \<Longrightarrow> truthy (js_get P k) \<Longrightarrow>
   computeInMasterFrame throws P g k w cb s =
     Inl (TypeError ''cbs.push is not a function'', s\<lparr>ampMasterTasks := Some (tasks_of s)\<rparr>)"
  by (simp add: computeInMasterFrame_def Let_def)

lemma call_pending:
  "tasks_of s k = Some a \<Longrightarrow> heap s a = Arr xs \<Longrightarrow>
   computeInMasterFrame throws P g k w cb s =
     Inr (if isMaster g
          then s\<lparr>ampMasterTasks := Some (tasks_of s),
                 heap := (heap s)(a := Arr (xs @ [cb])),
                 completions := completions s @ [(a, k)],
                 trace := trace s @ [WorkCalled k w (length (completions s))]\<rparr>
          else s\<lparr>ampMasterTasks := Some (tasks_of s),
                 heap := (heap s)(a := Arr (xs @ [cb]))\<rparr>)"
  by (simp add: computeInMasterFrame_def push_and_work_def push_def Let_def)

lemma call_resolved:
  "tasks_of s k = Some a \<Longrightarrow> heap s a = Stub r \<Longrightarrow>
   computeInMasterFrame throws P g k w cb s =
     (if throws cb r
      then Inl (CallbackError cb r,
                s\<lparr>ampMasterTasks := Some (tasks_of s), trace := trace s @ [CbCalled cb r]\<rparr>)
      else if isMaster g
      then Inr (s\<lparr>ampMasterTasks := Some (tasks_of s),
                  completions := completions s @ [(a, k)],
                  trace := trace s @ [CbCalled cb r, WorkCalled k w (length (completions s))]\<rparr>)
      else Inr (s\<lparr>ampMasterTasks := Some (tasks_of s), trace := trace s @ [CbCalled cb r]\<rparr>))"
  by (simp add: computeInMasterFrame_def push_and_work_def push_def invoke_def Let_def)

lemma tasks_of_Some [simp]: "tasks_of (s\<lparr>ampMasterTasks := Some t\<rparr>) = t"
  by (simp add: tasks_of_def)

lemma tasks_of_trace [simp]: "tasks_of (s\<lparr>trace := t\<rparr>) = tasks_of s"
  by (simp add: tasks_of_def)

lemma tasks_of_heap [simp]: "tasks_of (s\<lparr>heap := h\<rparr>) = tasks_of s"
  by (simp add: tasks_of_def)

lemma tasks_of_nextAddr [simp]: "tasks_of (s\<lparr>nextAddr := n\<rparr>) = tasks_of s"
  by (simp add: tasks_of_def)

lemma tasks_of_completions [simp]: "tasks_of (s\<lparr>completions := c\<rparr>) = tasks_of s"
  by (simp add: tasks_of_def)

lemma cb_calls_append [simp]: "cb_calls (xs @ ys) = cb_calls xs @ cb_calls ys"
  by (induction xs rule: cb_calls.induct) auto

lemma cb_calls_map [simp]: "cb_calls (map (\<lambda>cb. CbCalled cb r) xs) = map (\<lambda>cb. (cb, r)) xs"
  by (induction xs) auto

lemma deliver_frame:
  "\<exists>tr. state_of (deliver throws r xs s) = s\<lparr>trace := tr\<rparr>
        \<and> filter (is_work_for t) tr = filter (is_work_for t) (trace s)"
proof -
  have "filter (is_work_for t) (map (\<lambda>cb. CbCalled cb r) ys) = []" for ys
    by (induction ys) auto
  then show ?thesis
    by (intro exI [of _ "trace s @ map (\<lambda>cb. CbCalled cb r) (until_throw throws r xs)"])
       (simp add: deliver_until_throw)
qed

lemma fanout_frame:
  "\<exists>tr. state_of (fanout throws cbs r i s) = s\<lparr>trace := tr\<rparr>
        \<and> filter (is_work_for t) tr = filter (is_work_for t) (trace s)"
proof (cases "heap s cbs")
  case (Arr xs)
  then show ?thesis
    using deliver_frame [where t = t and throws = throws and r = r and xs = "drop i xs" and s = s]
    by (simp add: fanout_deliver)
next
  case (Stub v)
  then show ?thesis by (intro exI [of _ "trace s"]) (simp add: fanout_deliver)
qed

lemma completion_frame:
  "\<exists>tr. filter (is_work_for t) tr = filter (is_work_for t) (trace s) \<and>
     (state_of (completion throws (cbs, k) r s) = s\<lparr>trace := tr\<rparr>
      \<or> state_of (completion throws (cbs, k) r s) =
          s\<lparr>trace := tr, ampMasterTasks := Some ((tasks_of s)(k \<mapsto> nextAddr s)),
             heap := (heap s)(nextAddr s := Stub r), nextAddr := nextAddr s + 1\<rparr>)"
proof -
  from fanout_frame [where t = t and throws = throws and cbs = cbs and r = r and i = 0 and s = s]
  obtain tr where
    tr: "state_of (fanout throws cbs r 0 s) = s\<lparr>trace := tr\<rparr>"
        "filter (is_work_for t) tr = filter (is_work_for t) (trace s)" by blast
  show ?thesis
  proof (cases "fanout throws cbs r 0 s")
    case (Inl p)
    with tr show ?thesis by (cases p) (auto simp: completion_def)
  next
    case (Inr s')
    with tr have "s' = s\<lparr>trace := tr\<rparr>" by simp
    with Inr tr(2) show ?thesis by (auto simp: completion_def)
  qed
qed

lemma work_calls_completion:
  "work_calls t (state_of (completion throws c r s)) = work_calls t s"
proof (cases c)
  case (Pair cbs k)
  from completion_frame [where t = t and s = s and throws = throws and cbs = cbs and k = k and r = r]
    Pair show ?thesis
    by (auto simp: work_calls_def)
qed

lemma work_calls_call_exact:
  "work_calls k (state_of (computeInMasterFrame throws P g k w cb s))
     = work_calls k s
       + (if isMaster g \<and> \<not> (\<exists>r. entry s k = Some (Stub r) \<and> throws cb r)
             \<and> \<not> (tasks_of s k = None \<and> truthy (js_get P k))
          then 1 else 0)"
proof (cases "tasks_of s k")
  case None
  then show ?thesis
    by (cases "truthy (js_get P k)")
       (simp_all add: call_absent call_inherited work_calls_def entry_def)
next
  case (Some a)
  show ?thesis
  proof (cases "heap s a")
    case (Arr xs)
    with Some show ?thesis by (simp add: call_pending work_calls_def entry_def)
  next
    case (Stub r)
    with Some show ?thesis by (simp add: call_resolved work_calls_def entry_def)
  qed
qed

lemma work_calls_call_other:
  "k \<noteq> t \<Longrightarrow> work_calls t (state_of (computeInMasterFrame throws P g k w cb s)) = work_calls t s"
proof (cases "tasks_of s k")
  case None
  assume "k \<noteq> t"
  with None show ?thesis
    by (cases "truthy (js_get P k)")
       (simp_all add: call_absent call_inherited work_calls_def)
next
  case (Some a)
  assume "k \<noteq> t"
  with Some show ?thesis
    by (cases "heap s a") (simp_all add: call_pending call_resolved work_calls_def)
qed

lemma work_calls_perform:
  "work_calls t s \<le> work_calls t (perform throws P s a)
   \<and> work_calls t (perform throws P s a) \<le> work_calls t s + (if is_master_call t a then 1 else 0)
   \<and> ((\<forall>cb r. \<not> throws cb r) \<and> \<not> truthy (js_get P t) \<longrightarrow>
        work_calls t (perform throws P s a) = work_calls t s + (if is_master_call t a then 1 else 0))"
proof (cases a)
  case (Call g k w cb)
  show ?thesis
  proof (cases "k = t")
    case True
    with Call work_calls_call_exact [where k = t and throws = throws and P = P and g = g
        and w = w and cb = cb and s = s]
    show ?thesis by simp
  next
    case False
    with Call work_calls_call_other [OF False, where throws = throws and P = P and g = g
        and w = w and cb = cb and s = s]
    show ?thesis by simp
  qed
next
  case (Complete n r)
  then show ?thesis by (simp add: work_calls_completion)
qed

lemma work_calls_run_bound:
  "work_calls t s \<le> work_calls t (run throws P actions s)
   \<and> work_calls t (run throws P actions s)
       \<le> work_calls t s + length (filter (is_master_call t) actions)
   \<and> ((\<forall>cb r. \<not> throws cb r) \<and> \<not> truthy (js_get P t) \<longrightarrow>
        work_calls t (run throws P actions s)
          = work_calls t s + length (filter (is_master_call t) actions))"
proof (induction actions arbitrary: s)
  case Nil
  then show ?case by simp
next
  case (Cons a actions)
  let ?s1 = "perform throws P s a"
  let ?d = "if is_master_call t a then 1 else (0::nat)"
  let ?ok = "(\<forall>cb r. \<not> throws cb r) \<and> \<not> truthy (js_get P t)"
  have len: "length (filter (is_master_call t) (a # actions))
               = ?d + length (filter (is_master_call t) actions)"
    by simp
  have lo1: "work_calls t s \<le> work_calls t ?s1"
    and hi1: "work_calls t ?s1 \<le> work_calls t s + ?d"
    and eq1: "?ok \<longrightarrow> work_calls t ?s1 = work_calls t s + ?d"
    using work_calls_perform [where t = t and s = s and throws = throws and P = P and a = a]
    by blast+
  have lo2: "work_calls t ?s1 \<le> work_calls t (run throws P actions ?s1)"
    and hi2: "work_calls t (run throws P actions ?s1)
                \<le> work_calls t ?s1 + length (filter (is_master_call t) actions)"
    and eq2: "?ok \<longrightarrow> work_calls t (run throws P actions ?s1)
                = work_calls t ?s1 + length (filter (is_master_call t) actions)"
    using Cons [of ?s1] by blast+
  have r: "run throws P (a # actions) s = run throws P actions ?s1" by simp
  show ?case unfolding r len using lo1 hi1 eq1 lo2 hi2 eq2 by auto
qed

lemma completion_all:
  "heap s a = Arr xs \<Longrightarrow> \<forall>cb \<in> set xs. \<not> throws cb r \<Longrightarrow>
     completion throws (a, k) r s =
       Inr (s\<lparr>ampMasterTasks := Some ((tasks_of s)(k \<mapsto> nextAddr s)),
              heap := (heap s)(nextAddr s := Stub r),
              nextAddr := nextAddr s + 1,
              trace := trace s @ map (\<lambda>cb. CbCalled cb r) xs\<rparr>)"
  by (simp add: completion_def fanout_deliver deliver_all)

lemma completion_until_throw:
  "heap s a = Arr xs \<Longrightarrow>
     trace (state_of (completion throws (a, k) r s))
       = trace s @ map (\<lambda>cb. CbCalled cb r) (until_throw throws r xs)"
proof -
  assume h: "heap s a = Arr xs"
  have "trace (state_of (completion throws (a, k) r s)) = trace (state_of (deliver throws r xs s))"
  proof (cases "deliver throws r xs s")
    case (Inl p)
    with h show ?thesis by (cases p) (simp add: completion_def fanout_deliver)
  next
    case (Inr s')
    with h show ?thesis by (simp add: completion_def fanout_deliver)
  qed
  then show ?thesis by (simp add: deliver_until_throw)
qed

lemma well_formed_new_master: "well_formed new_master"
  by (simp add: well_formed_def new_master_def tasks_of_def)

lemma well_formed_same:
  "well_formed s \<Longrightarrow> tasks_of s' = tasks_of s \<Longrightarrow> nextAddr s' = nextAddr s \<Longrightarrow> well_formed s'"
  by (simp add: well_formed_def)

lemma well_formed_alloc:
  "well_formed s \<Longrightarrow> tasks_of s' = (tasks_of s)(k \<mapsto> nextAddr s) \<Longrightarrow>
     nextAddr s' = nextAddr s + 1 \<Longrightarrow> well_formed s'"
  unfolding well_formed_def by (simp add: less_Suc_eq) (metis less_irrefl)

lemma well_formed_call:
  "well_formed s \<Longrightarrow> well_formed (state_of (computeInMasterFrame throws P g k w cb s))"
proof -
  assume w: "well_formed s"
  show ?thesis
  proof (cases "tasks_of s k")
    case None
    show ?thesis
    proof (cases "truthy (js_get P k)")
      case True
      show ?thesis
        by (rule well_formed_same [OF w]) (simp_all add: call_inherited None True)
    next
      case False
      show ?thesis
        by (rule well_formed_alloc [OF w, where k = k]) (simp_all add: call_absent None False)
    qed
  next
    case (Some a)
    show ?thesis
    proof (cases "heap s a")
      case (Arr xs)
      show ?thesis
        by (rule well_formed_same [OF w]) (simp_all add: call_pending Some Arr)
    next
      case (Stub r)
      show ?thesis
        by (rule well_formed_same [OF w]) (simp_all add: call_resolved Some Stub)
    qed
  qed
qed

lemma well_formed_completion:
  "well_formed s \<Longrightarrow> well_formed (state_of (completion throws c r s))"
proof -
  assume w: "well_formed s"
  obtain cbs k where c: "c = (cbs, k)" by (cases c) auto
  from completion_frame [where s = s and throws = throws and cbs = cbs and k = k and r = r]
  obtain tr where
    "state_of (completion throws (cbs, k) r s) = s\<lparr>trace := tr\<rparr>
      \<or> state_of (completion throws (cbs, k) r s) =
          s\<lparr>trace := tr, ampMasterTasks := Some ((tasks_of s)(k \<mapsto> nextAddr s)),
             heap := (heap s)(nextAddr s := Stub r), nextAddr := nextAddr s + 1\<rparr>" by blast
  then show ?thesis
  proof
    assume "state_of (completion throws (cbs, k) r s) = s\<lparr>trace := tr\<rparr>"
    with w c show ?thesis by (intro well_formed_same [OF w]) simp_all
  next
    assume "state_of (completion throws (cbs, k) r s) =
          s\<lparr>trace := tr, ampMasterTasks := Some ((tasks_of s)(k \<mapsto> nextAddr s)),
             heap := (heap s)(nextAddr s := Stub r), nextAddr := nextAddr s + 1\<rparr>"
    with c show ?thesis by (intro well_formed_alloc [OF w, where k = k]) simp_all
  qed
qed

lemma well_formed_perform: "well_formed s \<Longrightarrow> well_formed (perform throws P s a)"
  by (cases a) (simp_all add: well_formed_call well_formed_completion)

lemma well_formed_run: "well_formed s \<Longrightarrow> well_formed (run throws P actions s)"
  by (induction actions arbitrary: s) (simp_all add: well_formed_perform)

lemma call_same_waiting:
  assumes "waiting s k = Some xs" and "own_closures n0 k s" and "\<not> truthy (js_get P k)"
  shows "waiting (state_of (computeInMasterFrame throws P g k w cb s)) k = Some (xs @ [cb])
       \<and> own_closures n0 k (state_of (computeInMasterFrame throws P g k w cb s))
       \<and> cb_calls (drop (length (trace s))
            (trace (state_of (computeInMasterFrame throws P g k w cb s)))) = []
       \<and> work_calls k (state_of (computeInMasterFrame throws P g k w cb s))
            = work_calls k s + (if isMaster g then 1 else 0)"
proof (cases "tasks_of s k")
  case None
  with assms(1) have "xs = []" by (simp add: waiting_def entry_def)
  moreover from assms(2) None
  have "\<forall>i. n0 \<le> i \<and> i < length (completions s) \<longrightarrow> snd (completions s ! i) \<noteq> k"
    by (auto simp: own_closures_def)
  ultimately show ?thesis using None assms(3)
    by (auto simp: call_absent waiting_def entry_def own_closures_def nth_append work_calls_def)
next
  case (Some a)
  with assms(1) have h: "heap s a = Arr xs"
    by (cases "heap s a") (simp_all add: waiting_def entry_def)
  from assms(2) Some h show ?thesis
    by (auto simp: call_pending waiting_def entry_def own_closures_def nth_append work_calls_def)
qed

lemma call_other_frame:
  assumes "well_formed s" and "k' \<noteq> k"
  shows "tasks_of (state_of (computeInMasterFrame throws P g k' w cb s)) k = tasks_of s k
       \<and> (\<forall>a. tasks_of s k = Some a \<longrightarrow>
             heap (state_of (computeInMasterFrame throws P g k' w cb s)) a = heap s a)
       \<and> (\<exists>new. completions (state_of (computeInMasterFrame throws P g k' w cb s))
                   = completions s @ new \<and> (\<forall>c \<in> set new. snd c \<noteq> k))"
proof (cases "tasks_of s k'")
  case None
  from assms(1) have fresh: "tasks_of s k = Some a \<Longrightarrow> a \<noteq> nextAddr s" for a
    unfolding well_formed_def by (metis less_irrefl)
  from None assms(2) fresh show ?thesis
    by (cases "truthy (js_get P k')") (auto simp: call_absent call_inherited)
next
  case (Some a')
  from assms Some have other: "tasks_of s k = Some a \<Longrightarrow> a \<noteq> a'" for a
    unfolding well_formed_def by metis
  show ?thesis
  proof (cases "heap s a'")
    case (Arr xs)
    with Some assms(2) other show ?thesis by (auto simp: call_pending)
  next
    case (Stub r)
    with Some assms(2) show ?thesis by (auto simp: call_resolved)
  qed
qed

lemma completion_other_frame:
  assumes "well_formed s" and "k' \<noteq> k"
  shows "tasks_of (state_of (completion throws (a', k') r s)) k = tasks_of s k
       \<and> (\<forall>a. tasks_of s k = Some a \<longrightarrow>
             heap (state_of (completion throws (a', k') r s)) a = heap s a)
       \<and> completions (state_of (completion throws (a', k') r s)) = completions s"
proof -
  from assms(1) have fresh: "tasks_of s k = Some a \<Longrightarrow> a \<noteq> nextAddr s" for a
    unfolding well_formed_def by (metis less_irrefl)
  from completion_frame [where s = s and throws = throws and cbs = a' and k = k' and r = r]
  obtain tr where
    "state_of (completion throws (a', k') r s) = s\<lparr>trace := tr\<rparr>
      \<or> state_of (completion throws (a', k') r s) =
          s\<lparr>trace := tr, ampMasterTasks := Some ((tasks_of s)(k' \<mapsto> nextAddr s)),
             heap := (heap s)(nextAddr s := Stub r), nextAddr := nextAddr s + 1\<rparr>" by blast
  then show ?thesis using assms(2) fresh by auto
qed

text \<open>
  An action that is not for \<open>k\<close> leaves the entry of \<open>k\<close> and the object bound to it as
  they are, and creates completion functions for other task identifiers only.
\<close>

lemma other_action_frame:
  assumes "well_formed s" and "\<not> action_for k s act"
  shows "tasks_of (perform throws P s act) k = tasks_of s k
       \<and> (\<forall>a. tasks_of s k = Some a \<longrightarrow> heap (perform throws P s act) a = heap s a)
       \<and> (\<exists>new. completions (perform throws P s act) = completions s @ new
                  \<and> (\<forall>c \<in> set new. snd c \<noteq> k))
       \<and> work_calls k (perform throws P s act) = work_calls k s"
proof (cases act)
  case (Call g k' w cb)
  with assms(2) have ne: "k' \<noteq> k" by simp
  from call_other_frame [OF assms(1) ne, where throws = throws and P = P and g = g
      and w = w and cb = cb]
    work_calls_call_other [OF ne, where throws = throws and P = P and g = g
      and w = w and cb = cb and s = s] Call
  show ?thesis by simp
next
  case (Complete n r)
  show ?thesis
  proof (cases "n < length (completions s)")
    case False
    with Complete show ?thesis by simp
  next
    case True
    obtain a' k' where c: "completions s ! n = (a', k')" by (cases "completions s ! n") auto
    with assms(2) Complete True have ne: "k' \<noteq> k" by simp
    from completion_other_frame [OF assms(1) ne, where throws = throws and a' = a' and r = r]
      work_calls_completion [where t = k and throws = throws and c = "(a', k')" and r = r
        and s = s] Complete True c
    show ?thesis by simp
  qed
qed

lemma frame_waiting:
  assumes "tasks_of s' k = tasks_of s k"
    and "\<forall>a. tasks_of s k = Some a \<longrightarrow> heap s' a = heap s a"
    and "completions s' = completions s @ new" and "\<forall>c \<in> set new. snd c \<noteq> k"
    and "waiting s k = Some xs" and "own_closures n0 k s"
  shows "waiting s' k = Some xs \<and> own_closures n0 k s'"
proof -
  have "entry s' k = entry s k"
    using assms(1,2) by (cases "tasks_of s k") (simp_all add: entry_def)
  with assms(5) have "waiting s' k = Some xs" by (simp add: waiting_def)
  moreover have "own_closures n0 k s'"
    unfolding own_closures_def
  proof (intro allI impI)
    fix i assume i: "n0 \<le> i \<and> i < length (completions s') \<and> snd (completions s' ! i) = k"
    show "tasks_of s' k = Some (fst (completions s' ! i))"
    proof (cases "i < length (completions s)")
      case True
      with i assms(3,6,1) show ?thesis by (auto simp: own_closures_def nth_append)
    next
      case False
      with i assms(3) have "completions s' ! i \<in> set new"
        by (auto simp: nth_append)
      with assms(4) i show ?thesis by auto
    qed
  qed
  ultimately show ?thesis by simp
qed

lemma no_completion_for_Cons:
  "no_completion_for throws P k s (act # actions) \<Longrightarrow>
     no_completion_for throws P k (perform throws P s act) actions
     \<and> (action_for k s act \<longrightarrow> (\<exists>g w cb. act = Call g k w cb))"
  by (cases act) auto

lemma events_for_append:
  "events_for throws P k s (as @ bs)
     = events_for throws P k s as @ events_for throws P k (run throws P as s) bs"
  by (induction as arbitrary: s) simp_all

lemma other_action_cbs:
  "\<not> action_for k s act \<Longrightarrow>
     cbs_for k (act # actions) = cbs_for k actions \<and> \<not> is_master_call k act"
  by (cases act) auto

text \<open>
  While no completion function of \<open>k\<close> is called, the calls for \<open>k\<close> queue their
  callbacks in call order and call none of them, each call of the master calls the work
  function once, and every completion function created for \<open>k\<close> holds the array.
\<close>

lemma pending_phase:
  assumes "well_formed s" and "waiting s k = Some xs" and "own_closures n0 k s"
    and "no_completion_for throws P k s actions" and "\<not> truthy (js_get P k)"
  shows "waiting (run throws P actions s) k = Some (xs @ cbs_for k actions)
       \<and> own_closures n0 k (run throws P actions s)
       \<and> cb_calls (events_for throws P k s actions) = []
       \<and> work_calls k (run throws P actions s)
           = work_calls k s + length (filter (is_master_call k) actions)"
  using assms(1-4)
proof (induction actions arbitrary: s xs)
  case Nil
  then show ?case by simp
next
  case (Cons act actions)
  define s1 where "s1 = perform throws P s act"
  have wf1: "well_formed s1"
    unfolding s1_def using Cons.prems(1) by (rule well_formed_perform)
  have step: "run throws P (act # actions) s = run throws P actions s1"
    and ev: "events_for throws P k s (act # actions)
      = (if action_for k s act then drop (length (trace s)) (trace s1) else [])
        @ events_for throws P k s1 actions"
    by (simp_all add: s1_def)
  from no_completion_for_Cons [OF Cons.prems(4)]
  have q: "no_completion_for throws P k s1 actions"
    and call: "action_for k s act \<longrightarrow> (\<exists>g w cb. act = Call g k w cb)"
    by (simp_all add: s1_def)
  show ?case
  proof (cases "action_for k s act")
    case True
    with call obtain g w cb where act: "act = Call g k w cb" by blast
    from call_same_waiting [OF Cons.prems(2,3) assms(5), where throws = throws and g = g
        and w = w and cb = cb]
    have w1: "waiting s1 k = Some (xs @ [cb])" and o1: "own_closures n0 k s1"
      and e1: "cb_calls (drop (length (trace s)) (trace s1)) = []"
      and c1: "work_calls k s1 = work_calls k s + (if isMaster g then 1 else 0)"
      by (simp_all add: s1_def act)
    from Cons.IH [OF wf1 w1 o1 q]
    have "waiting (run throws P actions s1) k = Some ((xs @ [cb]) @ cbs_for k actions)"
      and "own_closures n0 k (run throws P actions s1)"
      and "cb_calls (events_for throws P k s1 actions) = []"
      and "work_calls k (run throws P actions s1)
             = work_calls k s1 + length (filter (is_master_call k) actions)"
      by blast+
    moreover have "cbs_for k (act # actions) = cb # cbs_for k actions"
      "is_master_call k act = isMaster g"
      by (simp_all add: act)
    ultimately show ?thesis unfolding step ev using True e1 c1 by simp
  next
    case False
    from other_action_frame [OF Cons.prems(1) False, where throws = throws and P = P]
    obtain new where f: "tasks_of s1 k = tasks_of s k"
      "\<forall>a. tasks_of s k = Some a \<longrightarrow> heap s1 a = heap s a"
      "completions s1 = completions s @ new" "\<forall>c \<in> set new. snd c \<noteq> k"
      and c1: "work_calls k s1 = work_calls k s"
      unfolding s1_def by blast
    from frame_waiting [OF f Cons.prems(2,3)]
    have w1: "waiting s1 k = Some xs" and o1: "own_closures n0 k s1" by simp_all
    from other_action_cbs [OF False, of actions]
    have n: "cbs_for k (act # actions) = cbs_for k actions" "\<not> is_master_call k act"
      by simp_all
    from Cons.IH [OF wf1 w1 o1 q]
    have "waiting (run throws P actions s1) k = Some (xs @ cbs_for k actions)"
      and "own_closures n0 k (run throws P actions s1)"
      and "cb_calls (events_for throws P k s1 actions) = []"
      and "work_calls k (run throws P actions s1)
             = work_calls k s1 + length (filter (is_master_call k) actions)"
      by blast+
    with c1 n False show ?thesis unfolding step ev by simp
  qed
qed

text \<open>
  For an identifier that names a truthy inherited property and has no entry, every call
  throws before anything is bound: the entry stays missing and no completion function is
  created for it.
\<close>

lemma inherited_phase:
  assumes "well_formed s" and "tasks_of s k = None" and "own_closures n0 k s"
    and "no_completion_for throws P k s actions" and "truthy (js_get P k)"
  shows "tasks_of (run throws P actions s) k = None
       \<and> own_closures n0 k (run throws P actions s)"
  using assms(1-4)
proof (induction actions arbitrary: s)
  case Nil
  then show ?case by simp
next
  case (Cons act actions)
  define s1 where "s1 = perform throws P s act"
  have wf1: "well_formed s1"
    unfolding s1_def using Cons.prems(1) by (rule well_formed_perform)
  have step: "run throws P (act # actions) s = run throws P actions s1"
    and ev: "events_for throws P k s (act # actions)
      = (if action_for k s act then drop (length (trace s)) (trace s1) else [])
        @ events_for throws P k s1 actions"
    by (simp_all add: s1_def)
  from no_completion_for_Cons [OF Cons.prems(4)]
  have q: "no_completion_for throws P k s1 actions"
    and call: "action_for k s act \<longrightarrow> (\<exists>g w cb. act = Call g k w cb)"
    by (simp_all add: s1_def)
  have "tasks_of s1 k = None \<and> own_closures n0 k s1"
  proof (cases "action_for k s act")
    case True
    with call obtain g w cb where act: "act = Call g k w cb" by blast
    from Cons.prems(2,3) assms(5) show ?thesis
      by (simp add: s1_def act call_inherited own_closures_def)
  next
    case False
    from other_action_frame [OF Cons.prems(1) False, where throws = throws and P = P]
    obtain new where f: "tasks_of s1 k = tasks_of s k"
      "\<forall>a. tasks_of s k = Some a \<longrightarrow> heap s1 a = heap s a"
      "completions s1 = completions s @ new" "\<forall>c \<in> set new. snd c \<noteq> k"
      unfolding s1_def by blast
    have w0: "waiting s k = Some []" using Cons.prems(2) by (simp add: waiting_def entry_def)
    from frame_waiting [OF f w0 Cons.prems(3)] f(1) Cons.prems(2) show ?thesis by simp
  qed
  then have "tasks_of s1 k = None" and "own_closures n0 k s1" by simp_all
  from Cons.IH [OF wf1 this q] show ?case unfolding step by simp
qed

text \<open>
  Once the entry of \<open>k\<close> is resolved and while no completion function of \<open>k\<close> is called,
  each call for \<open>k\<close> calls its callback with the stored result, and the entry stays.
\<close>

lemma resolved_phase:
  assumes "well_formed s" and "tasks_of s k = Some a" and "heap s a = Stub r"
    and "no_completion_for throws P k s actions"
    and "\<forall>cb \<in> set (cbs_for k actions). \<not> throws cb r"
  shows "cb_calls (events_for throws P k s actions) = map (\<lambda>cb. (cb, r)) (cbs_for k actions)
       \<and> tasks_of (run throws P actions s) k = Some a
       \<and> heap (run throws P actions s) a = Stub r"
  using assms
proof (induction actions arbitrary: s)
  case Nil
  then show ?case by simp
next
  case (Cons act actions)
  define s1 where "s1 = perform throws P s act"
  have wf1: "well_formed s1"
    unfolding s1_def using Cons.prems(1) by (rule well_formed_perform)
  have step: "run throws P (act # actions) s = run throws P actions s1"
    and ev: "events_for throws P k s (act # actions)
      = (if action_for k s act then drop (length (trace s)) (trace s1) else [])
        @ events_for throws P k s1 actions"
    by (simp_all add: s1_def)
  from no_completion_for_Cons [OF Cons.prems(4)]
  have q: "no_completion_for throws P k s1 actions"
    and call: "action_for k s act \<longrightarrow> (\<exists>g w cb. act = Call g k w cb)"
    by (simp_all add: s1_def)
  show ?case
  proof (cases "action_for k s act")
    case True
    with call obtain g w cb where act: "act = Call g k w cb" by blast
    from Cons.prems(5) act have nt: "\<not> throws cb r"
      "\<forall>cb \<in> set (cbs_for k actions). \<not> throws cb r" by simp_all
    have t1: "tasks_of s1 k = Some a" and h1: "heap s1 a = Stub r"
      and e1: "cb_calls (drop (length (trace s)) (trace s1)) = [(cb, r)]"
      using Cons.prems(2,3) nt(1) by (simp_all add: s1_def act call_resolved)
    moreover have "cbs_for k (act # actions) = cb # cbs_for k actions"
      by (simp add: act)
    moreover note Cons.IH [OF wf1 t1 h1 q nt(2)]
    ultimately show ?thesis unfolding step ev using True by simp
  next
    case False
    from other_action_frame [OF Cons.prems(1) False, where throws = throws and P = P]
    have t1: "tasks_of s1 k = Some a" and h1: "heap s1 a = Stub r"
      using Cons.prems(2,3) by (simp_all add: s1_def)
    from other_action_cbs [OF False, of actions]
    have n: "cbs_for k (act # actions) = cbs_for k actions" by simp
    from Cons.prems(5) n have nt: "\<forall>cb \<in> set (cbs_for k actions). \<not> throws cb r" by simp
    from Cons.IH [OF wf1 t1 h1 q nt] n False show ?thesis unfolding step ev by simp
  qed
qed

lemma cbs_for_append: "cbs_for k (as @ bs) = cbs_for k as @ cbs_for k bs"
  by (induction as rule: cbs_for.induct) auto

lemmas eval_defs =
  computeInMasterFrame_def push_and_work_def completion_def fanout_deliver push_def invoke_def
  tasks_of_def new_master_def entry_def work_calls_def Let_def js_get_def
  standardObjectPrototype_def

section \<open>Claims about computeInMasterFrame\<close>

text \<open>
  C1, as the code has it. The work function is called once for each call that the master
  context makes, not once for each \<open>taskId\<close>: over any sequence of calls and
  completions, the number of work calls for \<open>taskId\<close> grows by at most the number of
  calls the master makes for it, by exactly that number when no callback throws and
  \<open>taskId\<close> names no truthy property that the registry inherits, and not at all when the
  master makes no call. So work runs exactly once when the master calls exactly once,
  and again on every further call of the master, before or after resolution. A single
  call adds one work call when the caller is the master, none when it is not; the two
  exceptions are a call of the master on a resolved entry whose callback throws at its
  immediate delivery, and a call for an identifier such as \<^verbatim>\<open>toString\<close> that has no entry
  of its own, where \<^verbatim>\<open>cbs.push\<close> throws: both end the call before the work function.
\<close>

theorem work_once_per_master_call:
  "work_calls taskId (run throws objectPrototype actions s)
     \<le> work_calls taskId s + length (filter (is_master_call taskId) actions)
   \<and> ((\<forall>cb r. \<not> throws cb r) \<and> \<not> truthy (js_get objectPrototype taskId) \<longrightarrow>
        work_calls taskId (run throws objectPrototype actions s)
          = work_calls taskId s + length (filter (is_master_call taskId) actions))
   \<and> (filter (is_master_call taskId) actions = [] \<longrightarrow>
        work_calls taskId (run throws objectPrototype actions s) = work_calls taskId s)
   \<and> work_calls taskId
        (state_of (computeInMasterFrame throws objectPrototype glob taskId work cb s))
       = work_calls taskId s
         + (if isMaster glob \<and> \<not> (\<exists>r. entry s taskId = Some (Stub r) \<and> throws cb r)
               \<and> \<not> (tasks_of s taskId = None \<and> truthy (js_get objectPrototype taskId))
            then 1 else 0)"
proof -
  have one: "work_calls taskId
        (state_of (computeInMasterFrame throws objectPrototype glob taskId work cb s))
       = work_calls taskId s
         + (if isMaster glob \<and> \<not> (\<exists>r. entry s taskId = Some (Stub r) \<and> throws cb r)
               \<and> \<not> (tasks_of s taskId = None \<and> truthy (js_get objectPrototype taskId))
            then 1 else 0)"
    by (rule work_calls_call_exact)
  from work_calls_run_bound [where t = taskId and s = s and throws = throws
      and P = objectPrototype and actions = actions]
  have "work_calls taskId (run throws objectPrototype actions s)
     \<le> work_calls taskId s + length (filter (is_master_call taskId) actions)"
    and "(\<forall>cb r. \<not> throws cb r) \<and> \<not> truthy (js_get objectPrototype taskId) \<longrightarrow>
        work_calls taskId (run throws objectPrototype actions s)
          = work_calls taskId s + length (filter (is_master_call taskId) actions)"
    and "filter (is_master_call taskId) actions = [] \<longrightarrow>
        work_calls taskId (run throws objectPrototype actions s) = work_calls taskId s"
    by auto
  with one show ?thesis by blast
qed

theorem work_once_per_master_call_witness:
  "work_calls ''geo-lookup''
     (run never standardObjectPrototype
        [Call inOther ''geo-lookup'' ''fn'' ''cb1'',
         Call inMaster ''geo-lookup'' ''fn'' ''cb2'',
         Call inOther ''geo-lookup'' ''fn'' ''cb3'',
         Complete 0 Object,
         Call inOther ''geo-lookup'' ''fn'' ''cb4''] new_master) = 1"
proof -
  have "work_calls ''geo-lookup'' new_master = 0"
    by (simp add: work_calls_def new_master_def)
  moreover have "\<not> truthy (js_get standardObjectPrototype ''geo-lookup'')"
    by (simp add: js_get_def standardObjectPrototype_def)
  moreover note work_once_per_master_call [where taskId = "''geo-lookup''" and throws = never
      and objectPrototype = standardObjectPrototype and s = new_master
      and actions = "[Call inOther ''geo-lookup'' ''fn'' ''cb1'',
         Call inMaster ''geo-lookup'' ''fn'' ''cb2'',
         Call inOther ''geo-lookup'' ''fn'' ''cb3'',
         Complete 0 Object,
         Call inOther ''geo-lookup'' ''fn'' ''cb4'']"]
  ultimately show ?thesis by simp
qed

text \<open>
  Two calls by the master context for the same \<open>taskId\<close> call the work function twice,
  whether the second call comes before the resolution or after it. A call by the master
  context for the identifier \<^verbatim>\<open>toString\<close> calls no work function at all.
\<close>

theorem work_called_twice_counterexample:
  "work_calls ''t''
     (run never standardObjectPrototype
        [Call inMaster ''t'' ''w'' ''A'', Call inMaster ''t'' ''w'' ''B''] new_master) = 2
   \<and> work_calls ''t''
     (run never standardObjectPrototype
        [Call inMaster ''t'' ''w'' ''A'', Complete 0 (Num 1),
         Call inMaster ''t'' ''w'' ''B''] new_master) = 2
   \<and> work_calls ''toString''
     (run never standardObjectPrototype
        [Call inMaster ''toString'' ''w'' ''A''] new_master) = 0"
  by (simp add: eval_defs)

text \<open>
  C2, as the code has it. Take a \<open>taskId\<close> that has no entry yet and any sequence of
  actions (calls for it and for other task identifiers by any contexts, completions of
  other tasks) in which exactly one call for \<open>taskId\<close> is made by the master context, and
  in which the completion function that this call hands to the work function is called
  once, after the master's call; let no callback passed for \<open>taskId\<close> throw. Then the
  actions for \<open>taskId\<close> call every callback passed to a call for it, before or after the
  completion, exactly once, in call order, all of them with the result given to the
  completion function, and the work function is called once for \<open>taskId\<close>. (For an
  identifier such as \<^verbatim>\<open>toString\<close> there is no such completion function: every call for
  it throws before the work function.)
\<close>

theorem every_callback_once:
  assumes "well_formed s" and "tasks_of s k = None"
    and "no_completion_for throws objectPrototype k s before"
    and "length (filter (is_master_call k) before) = 1"
    and "length (completions s) \<le> n"
    and "n < length (completions (run throws objectPrototype before s))"
    and "snd (completions (run throws objectPrototype before s) ! n) = k"
    and "no_completion_for throws objectPrototype k
           (run throws objectPrototype (before @ [Complete n r]) s) after"
    and "filter (is_master_call k) after = []"
    and "\<forall>cb \<in> set (cbs_for k (before @ after)). \<not> throws cb r"
  shows "cb_calls (events_for throws objectPrototype k s (before @ [Complete n r] @ after))
           = map (\<lambda>cb. (cb, r)) (cbs_for k (before @ after))
     \<and> work_calls k (run throws objectPrototype (before @ [Complete n r] @ after) s)
           = work_calls k s + 1"
proof -
  define s1 where "s1 = run throws objectPrototype before s"
  define s2 where "s2 = perform throws objectPrototype s1 (Complete n r)"
  define s3 where "s3 = run throws objectPrototype after s2"
  have w0: "waiting s k = Some []" using assms(2) by (simp add: waiting_def entry_def)
  have o0: "own_closures (length (completions s)) k s" by (auto simp: own_closures_def)
  obtain a where c: "completions s1 ! n = (a, k)"
    using assms(7) by (cases "completions s1 ! n") (auto simp: s1_def)
  have n1: "n < length (completions s1)" using assms(6) by (simp add: s1_def)
  have clean: "\<not> truthy (js_get objectPrototype k)"
  proof
    assume "truthy (js_get objectPrototype k)"
    from inherited_phase [OF assms(1,2) o0 assms(3) this]
    have "tasks_of s1 k = None" "own_closures (length (completions s)) k s1"
      by (simp_all add: s1_def)
    with assms(5) n1 c show False by (auto simp: own_closures_def)
  qed
  from pending_phase [OF assms(1) w0 o0 assms(3) clean]
  have w: "waiting s1 k = Some (cbs_for k before)"
    and o: "own_closures (length (completions s)) k s1"
    and e1: "cb_calls (events_for throws objectPrototype k s before) = []"
    and c1: "work_calls k s1 = work_calls k s + length (filter (is_master_call k) before)"
    by (simp_all add: s1_def)
  from o assms(5) n1 c have t: "tasks_of s1 k = Some a"
    by (auto simp: own_closures_def)
  with w have h: "heap s1 a = Arr (cbs_for k before)"
    by (cases "heap s1 a") (simp_all add: waiting_def entry_def)
  from assms(10) have nt1: "\<forall>cb \<in> set (cbs_for k before). \<not> throws cb r"
    and nt2: "\<forall>cb \<in> set (cbs_for k after). \<not> throws cb r"
    by (simp_all add: cbs_for_append)
  have s2: "s2 = s1\<lparr>ampMasterTasks := Some ((tasks_of s1)(k \<mapsto> nextAddr s1)),
              heap := (heap s1)(nextAddr s1 := Stub r),
              nextAddr := nextAddr s1 + 1,
              trace := trace s1 @ map (\<lambda>cb. CbCalled cb r) (cbs_for k before)\<rparr>"
    unfolding s2_def
    using n1 c completion_all [where throws = throws and r = r and k = k, OF h nt1] by simp
  have wf2: "well_formed s2"
    unfolding s2_def s1_def
    by (intro well_formed_perform well_formed_run assms(1))
  have t2: "tasks_of s2 k = Some (nextAddr s1)" and h2: "heap s2 (nextAddr s1) = Stub r"
    and e2: "cb_calls (drop (length (trace s1)) (trace s2))
               = map (\<lambda>cb. (cb, r)) (cbs_for k before)"
    by (simp_all add: s2)
  have q: "no_completion_for throws objectPrototype k s2 after"
    using assms(8) by (simp add: s2_def s1_def)
  from resolved_phase [OF wf2 t2 h2 q nt2]
  have e3: "cb_calls (events_for throws objectPrototype k s2 after)
              = map (\<lambda>cb. (cb, r)) (cbs_for k after)"
    by blast
  have ev: "events_for throws objectPrototype k s (before @ [Complete n r] @ after)
      = events_for throws objectPrototype k s before
        @ drop (length (trace s1)) (trace s2)
        @ events_for throws objectPrototype k s2 after"
  proof -
    have "s2 = state_of (completion throws (a, k) r s1)"
      using n1 c by (simp add: s2_def)
    with n1 c show ?thesis
      by (simp add: events_for_append s1_def [symmetric])
  qed
  have r: "run throws objectPrototype (before @ [Complete n r] @ after) s = s3"
    by (simp add: s3_def s2_def s1_def)
  have "work_calls k s2 = work_calls k s1"
    unfolding s2_def using n1 by (simp add: work_calls_completion)
  moreover from work_calls_run_bound [where t = k and s = s2 and throws = throws
      and P = objectPrototype and actions = after] assms(9)
  have "work_calls k s3 = work_calls k s2"
    by (simp add: s3_def)
  ultimately have w3: "work_calls k s3 = work_calls k s + 1"
    using c1 assms(4) by simp
  show ?thesis unfolding r ev using e1 e2 e3 w3 by (simp add: cbs_for_append)
qed

text \<open>
  The scenario of the spec with a second task in between: three contexts call for
  "geo-lookup", one of them the master, the work function completes, and a fourth call
  comes late.
\<close>

theorem every_callback_once_witness:
  "cb_calls (events_for never standardObjectPrototype ''geo-lookup'' new_master
      [Call inOther ''geo-lookup'' ''fn'' ''cb1'',
       Call inOther ''u'' ''v'' ''X'',
       Call inMaster ''geo-lookup'' ''fn'' ''cb2'',
       Call inMaster ''u'' ''v'' ''Y'',
       Call inOther ''geo-lookup'' ''fn'' ''cb3'',
       Complete 0 Object,
       Complete 1 (Num 7),
       Call inOther ''geo-lookup'' ''fn'' ''cb4''])
     = [(''cb1'', Object), (''cb2'', Object), (''cb3'', Object), (''cb4'', Object)]
   \<and> work_calls ''geo-lookup'' (run never standardObjectPrototype
      [Call inOther ''geo-lookup'' ''fn'' ''cb1'',
       Call inOther ''u'' ''v'' ''X'',
       Call inMaster ''geo-lookup'' ''fn'' ''cb2'',
       Call inMaster ''u'' ''v'' ''Y'',
       Call inOther ''geo-lookup'' ''fn'' ''cb3'',
       Complete 0 Object,
       Complete 1 (Num 7),
       Call inOther ''geo-lookup'' ''fn'' ''cb4''] new_master) = 1"
proof -
  let ?before = "[Call inOther ''geo-lookup'' ''fn'' ''cb1'',
       Call inOther ''u'' ''v'' ''X'',
       Call inMaster ''geo-lookup'' ''fn'' ''cb2'',
       Call inMaster ''u'' ''v'' ''Y'',
       Call inOther ''geo-lookup'' ''fn'' ''cb3'']"
  let ?after = "[Complete 1 (Num 7), Call inOther ''geo-lookup'' ''fn'' ''cb4'']"
  have h2: "tasks_of new_master ''geo-lookup'' = None"
    by (simp add: tasks_of_def new_master_def)
  have h3: "no_completion_for never standardObjectPrototype ''geo-lookup'' new_master ?before"
    by simp
  have h4: "length (filter (is_master_call ''geo-lookup'') ?before) = 1"
    by simp
  have h5: "length (completions new_master) \<le> 0"
    by (simp add: new_master_def)
  have h6: "0 < length (completions (run never standardObjectPrototype ?before new_master))"
    and h7: "snd (completions (run never standardObjectPrototype ?before new_master) ! 0)
               = ''geo-lookup''"
    by (simp_all add: eval_defs)
  have h8: "no_completion_for never standardObjectPrototype ''geo-lookup''
      (run never standardObjectPrototype (?before @ [Complete 0 Object]) new_master) ?after"
    by (simp add: eval_defs)
  have h9: "filter (is_master_call ''geo-lookup'') ?after = []"
    by simp
  have h10: "\<forall>cb \<in> set (cbs_for ''geo-lookup'' (?before @ ?after)). \<not> never cb Object"
    by simp
  have z: "work_calls ''geo-lookup'' new_master = 0"
    by (simp add: new_master_def work_calls_def)
  from every_callback_once [OF well_formed_new_master h2 h3 h4 h5 h6 h7 h8 h9 h10] z
  show ?thesis by simp
qed

text \<open>
  With two calls by the master context, each work function completes and each completion
  fans out over the same array: both callbacks are called twice, with two results. With
  no call by the master context no callback is called at all. With the identifier
  \<^verbatim>\<open>toString\<close> every call throws, no completion function is created and no callback is
  called. A work function that calls its completion function twice has the callback
  called twice, and a callback that throws keeps the one queued behind it from being
  called.
\<close>

theorem callbacks_called_twice_counterexample:
  "cb_calls (trace (run never standardObjectPrototype
      [Call inMaster ''t'' ''w'' ''A'', Call inMaster ''t'' ''w'' ''B'',
       Complete 0 (Num 1), Complete 1 (Num 2)] new_master))
   = [(''A'', Num 1), (''B'', Num 1), (''A'', Num 2), (''B'', Num 2)]
   \<and> cb_calls (trace (run never standardObjectPrototype
      [Call inOther ''t'' ''w'' ''A'', Call inOther ''t'' ''w'' ''B''] new_master)) = []
   \<and> computeInMasterFrame never standardObjectPrototype inMaster ''toString'' ''w'' ''A''
        new_master
      = Inl (TypeError ''cbs.push is not a function'',
             new_master\<lparr>ampMasterTasks := Some Map.empty\<rparr>)
   \<and> trace (run never standardObjectPrototype
      [Call inMaster ''toString'' ''w'' ''A'', Call inOther ''toString'' ''w'' ''B'',
       Complete 0 (Num 1)] new_master) = []
   \<and> cb_calls (trace (run never standardObjectPrototype
      [Call inMaster ''t'' ''w'' ''A'', Complete 0 (Num 1), Complete 0 (Num 2)] new_master))
     = [(''A'', Num 1), (''A'', Num 2)]
   \<and> cb_calls (trace (run (\<lambda>cb result. cb = ''A'') standardObjectPrototype
      [Call inMaster ''t'' ''w'' ''A'', Call inOther ''t'' ''w'' ''B'',
       Complete 0 (Num 1)] new_master))
     = [(''A'', Num 1)]"
  by (simp add: eval_defs)

text \<open>
  C3, as the code has it. A call for a \<open>taskId\<close> whose entry is resolved calls the new
  callback at once with the stored result, whoever calls, and leaves the entry as it is;
  the work function is not called when the caller is not the master. When the caller is
  the master and the callback returns, the work function is called again.
\<close>

theorem late_registration:
  assumes "entry s k = Some (Stub r)"
  shows "trace (state_of (computeInMasterFrame throws objectPrototype glob k w cb s)) =
           trace s @ CbCalled cb r #
             (if isMaster glob \<and> \<not> throws cb r
              then [WorkCalled k w (length (completions s))] else [])
     \<and> entry (state_of (computeInMasterFrame throws objectPrototype glob k w cb s)) k = Some (Stub r)"
proof -
  from assms obtain a where a: "tasks_of s k = Some a" "heap s a = Stub r"
    by (auto simp: entry_def)
  then show ?thesis by (simp add: call_resolved entry_def)
qed

theorem late_registration_witness:
  "entry (run never standardObjectPrototype
          [Call inMaster ''t'' ''w'' ''A'', Complete 0 (Str ''US'')] new_master) ''t''
     = Some (Stub (Str ''US''))
   \<and> trace (state_of (computeInMasterFrame never standardObjectPrototype inOther
        ''t'' ''w'' ''B''
        (run never standardObjectPrototype
          [Call inMaster ''t'' ''w'' ''A'', Complete 0 (Str ''US'')] new_master)))
     = trace (run never standardObjectPrototype
          [Call inMaster ''t'' ''w'' ''A'', Complete 0 (Str ''US'')] new_master)
       @ [CbCalled ''B'' (Str ''US'')]"
proof -
  have h: "entry (run never standardObjectPrototype
          [Call inMaster ''t'' ''w'' ''A'', Complete 0 (Str ''US'')] new_master) ''t''
     = Some (Stub (Str ''US''))"
    by (simp add: eval_defs)
  from late_registration [OF h, where throws = never and objectPrototype = standardObjectPrototype
      and glob = inOther and w = "''w''" and cb = "''B''"] h show ?thesis
    by simp
qed

text \<open>A call by the master context after the resolution calls the work function again.\<close>

theorem late_master_call_counterexample:
  "entry (run never standardObjectPrototype
          [Call inMaster ''t'' ''w'' ''A'', Complete 0 (Num 1)] new_master) ''t''
     = Some (Stub (Num 1))
   \<and> trace (run never standardObjectPrototype
          [Call inMaster ''t'' ''w'' ''A'', Complete 0 (Num 1)] new_master)
     = [WorkCalled ''t'' ''w'' 0, CbCalled ''A'' (Num 1)]
   \<and> trace (state_of (computeInMasterFrame never standardObjectPrototype inMaster
        ''t'' ''w'' ''B''
        (run never standardObjectPrototype
          [Call inMaster ''t'' ''w'' ''A'', Complete 0 (Num 1)] new_master)))
     = [WorkCalled ''t'' ''w'' 0, CbCalled ''A'' (Num 1), CbCalled ''B'' (Num 1),
        WorkCalled ''t'' ''w'' 1]"
  by (simp add: eval_defs)

text \<open>
  C4, as the code has it. The fan-out does not isolate the callbacks: when a queued
  callback throws, the callbacks queued before it have been called, the exception leaves
  the completion function, no later callback is called, and the state differs from the
  one before only by these calls, so the entry is still the array and is not resolved.
\<close>

theorem throwing_callback_ends_fanout:
  assumes "heap s cbs = Arr (pre @ b # post)"
    and "\<forall>cb \<in> set pre. \<not> throws cb r" and "throws b r"
  shows "completion throws (cbs, k) r s =
           Inl (CallbackError b r, s\<lparr>trace := trace s @ map (\<lambda>cb. CbCalled cb r) (pre @ [b])\<rparr>)"
  using assms by (simp add: completion_def fanout_deliver deliver_throw)

theorem throwing_callback_ends_fanout_witness:
  "completion (\<lambda>cb result. cb = ''B'') (0, ''t'') (Num 1)
     (run (\<lambda>cb result. cb = ''B'') standardObjectPrototype
        [Call inMaster ''t'' ''w'' ''A'', Call inOther ''t'' ''w'' ''B'',
         Call inOther ''t'' ''w'' ''C''] new_master)
   = Inl (CallbackError ''B'' (Num 1),
       (run (\<lambda>cb result. cb = ''B'') standardObjectPrototype
        [Call inMaster ''t'' ''w'' ''A'', Call inOther ''t'' ''w'' ''B'',
         Call inOther ''t'' ''w'' ''C''] new_master)
       \<lparr>trace := [WorkCalled ''t'' ''w'' 0, CbCalled ''A'' (Num 1), CbCalled ''B'' (Num 1)]\<rparr>)"
proof -
  let ?s = "run (\<lambda>cb result. cb = ''B'') standardObjectPrototype
        [Call inMaster ''t'' ''w'' ''A'', Call inOther ''t'' ''w'' ''B'',
         Call inOther ''t'' ''w'' ''C''] new_master"
  have h1: "heap ?s 0 = Arr ([''A''] @ ''B'' # [''C''])"
    by (simp add: eval_defs)
  have h2: "\<forall>cb \<in> set [''A'']. \<not> (\<lambda>cb result. cb = ''B'') cb (Num 1)"
    by simp
  have h3: "(\<lambda>cb result. cb = ''B'') ''B'' (Num 1)"
    by simp
  have t: "trace ?s = [WorkCalled ''t'' ''w'' 0]"
    by (simp add: eval_defs)
  from throwing_callback_ends_fanout [where throws = "\<lambda>cb result. cb = ''B''" and k = "''t''",
      OF h1 h2 h3] t
  show ?thesis by simp
qed

text \<open>
  Callbacks A, B, C are queued and B throws: C is never called and the entry stays the
  array of waiting callbacks.
\<close>

theorem throwing_callback_counterexample:
  "trace (run (\<lambda>cb result. cb = ''B'') standardObjectPrototype
      [Call inMaster ''t'' ''w'' ''A'', Call inOther ''t'' ''w'' ''B'',
       Call inOther ''t'' ''w'' ''C'', Complete 0 (Num 1)] new_master)
     = [WorkCalled ''t'' ''w'' 0, CbCalled ''A'' (Num 1), CbCalled ''B'' (Num 1)]
   \<and> entry (run (\<lambda>cb result. cb = ''B'') standardObjectPrototype
      [Call inMaster ''t'' ''w'' ''A'', Call inOther ''t'' ''w'' ''B'',
       Call inOther ''t'' ''w'' ''C'', Complete 0 (Num 1)] new_master) ''t''
     = Some (Arr [''A'', ''B'', ''C''])"
  by (simp add: eval_defs)

text \<open>
  C5, as the code has it. A call by a context that is not the master does write the
  master's registry, and only to register its callback: it creates the registry when it
  is missing, binds an array holding the callback to a \<open>taskId\<close> without entry, and
  appends the callback to a waiting entry. It leaves a resolved entry and the entries of
  all other task identifiers as they are, creates no completion function and calls no
  work function. For an identifier without entry that names a truthy inherited property
  (\<^verbatim>\<open>toString\<close>) the call creates the registry and throws without binding an entry.
\<close>

theorem nonmaster_call_only_registers:
  assumes "well_formed s" and "\<not> isMaster glob"
  shows "completions (state_of (computeInMasterFrame throws objectPrototype glob k w cb s))
           = completions s
     \<and> work_calls t (state_of (computeInMasterFrame throws objectPrototype glob k w cb s))
           = work_calls t s
     \<and> (\<forall>k'. k' \<noteq> k \<longrightarrow>
          entry (state_of (computeInMasterFrame throws objectPrototype glob k w cb s)) k'
            = entry s k')
     \<and> entry (state_of (computeInMasterFrame throws objectPrototype glob k w cb s)) k =
         (case entry s k of
            None \<Rightarrow> if truthy (js_get objectPrototype k) then None else Some (Arr [cb])
          | Some (Arr xs) \<Rightarrow> Some (Arr (xs @ [cb]))
          | Some (Stub r) \<Rightarrow> Some (Stub r))
     \<and> ampMasterTasks (state_of (computeInMasterFrame throws objectPrototype glob k w cb s))
           \<noteq> None"
proof -
  define s' where "s' = state_of (computeInMasterFrame throws objectPrototype glob k w cb s)"
  have "completions s' = completions s \<and> work_calls t s' = work_calls t s
     \<and> (\<forall>k'. k' \<noteq> k \<longrightarrow> entry s' k' = entry s k')
     \<and> entry s' k =
         (case entry s k of
            None \<Rightarrow> if truthy (js_get objectPrototype k) then None else Some (Arr [cb])
          | Some (Arr xs) \<Rightarrow> Some (Arr (xs @ [cb]))
          | Some (Stub r) \<Rightarrow> Some (Stub r))
     \<and> ampMasterTasks s' \<noteq> None"
  proof (cases "tasks_of s k")
    case None
    show ?thesis
    proof (cases "truthy (js_get objectPrototype k)")
      case True
      with None show ?thesis
        by (simp add: s'_def call_inherited entry_def work_calls_def)
    next
      case False
      from assms(1) have fresh: "tasks_of s k' = Some a \<Longrightarrow> a \<noteq> nextAddr s" for k' a
        unfolding well_formed_def by (metis less_irrefl)
      have "entry s' k' = entry s k'" if "k' \<noteq> k" for k'
        using that None False assms(2) fresh [of k']
        by (cases "tasks_of s k'") (simp_all add: s'_def call_absent entry_def)
      moreover from None False assms(2)
      have "completions s' = completions s" "work_calls t s' = work_calls t s"
        "entry s' k = Some (Arr [cb])" "entry s k = None" "ampMasterTasks s' \<noteq> None"
        by (simp_all add: s'_def call_absent entry_def work_calls_def)
      ultimately show ?thesis using False by simp
    qed
  next
    case (Some a)
    from assms(1) Some have other: "k' \<noteq> k \<Longrightarrow> tasks_of s k' = Some a' \<Longrightarrow> a' \<noteq> a" for k' a'
      unfolding well_formed_def by metis
    show ?thesis
    proof (cases "heap s a")
      case (Arr xs)
      have "entry s' k' = entry s k'" if "k' \<noteq> k" for k'
        using that Some Arr assms(2) other [of k']
        by (cases "tasks_of s k'") (simp_all add: s'_def call_pending entry_def)
      moreover from Some Arr assms(2)
      have "completions s' = completions s" "work_calls t s' = work_calls t s"
        "entry s' k = Some (Arr (xs @ [cb]))" "entry s k = Some (Arr xs)"
        "ampMasterTasks s' \<noteq> None"
        by (simp_all add: s'_def call_pending entry_def work_calls_def)
      ultimately show ?thesis by simp
    next
      case (Stub r)
      have "entry s' k' = entry s k'" for k'
        using Some Stub assms(2) by (simp add: s'_def call_resolved entry_def)
      moreover from Some Stub assms(2)
      have "completions s' = completions s" "work_calls t s' = work_calls t s"
        "entry s k = Some (Stub r)" "ampMasterTasks s' \<noteq> None"
        by (simp_all add: s'_def call_resolved entry_def work_calls_def)
      ultimately show ?thesis by simp
    qed
  qed
  then show ?thesis unfolding s'_def .
qed

theorem nonmaster_call_only_registers_witness:
  "well_formed (run never standardObjectPrototype [Call inMaster ''t'' ''w'' ''A''] new_master)
   \<and> entry (state_of (computeInMasterFrame never standardObjectPrototype inOther
        ''t'' ''w'' ''B''
        (run never standardObjectPrototype [Call inMaster ''t'' ''w'' ''A''] new_master))) ''t''
       = Some (Arr [''A'', ''B''])
   \<and> entry (state_of (computeInMasterFrame never standardObjectPrototype inOther
        ''t'' ''w'' ''B''
        (run never standardObjectPrototype [Call inMaster ''t'' ''w'' ''A''] new_master))) ''u''
       = None
   \<and> completions (state_of (computeInMasterFrame never standardObjectPrototype inOther
        ''t'' ''w'' ''B''
        (run never standardObjectPrototype [Call inMaster ''t'' ''w'' ''A''] new_master)))
       = [(0, ''t'')]"
proof -
  let ?s = "run never standardObjectPrototype [Call inMaster ''t'' ''w'' ''A''] new_master"
  have h1: "well_formed ?s"
    by (rule well_formed_run [OF well_formed_new_master])
  have h2: "\<not> isMaster inOther"
    by simp
  have e: "entry ?s ''t'' = Some (Arr [''A''])" "entry ?s ''u'' = None"
    "completions ?s = [(0, ''t'')]"
    by (simp_all add: eval_defs)
  from nonmaster_call_only_registers [OF h1 h2, where throws = never
      and objectPrototype = standardObjectPrototype and k = "''t''"
      and w = "''w''" and cb = "''B''" and t = "''t''"] h1 e
  show ?thesis by simp
qed

text \<open>
  A call from a context that is not the master creates the registry entry on a new master,
  and extends the entry that a call of the master has created. Even the call for
  \<^verbatim>\<open>toString\<close>, which throws, has created the registry.
\<close>

theorem nonmaster_call_writes_counterexample:
  "ampMasterTasks new_master = None
   \<and> entry new_master ''t'' = None
   \<and> entry (state_of (computeInMasterFrame never standardObjectPrototype inOther
        ''t'' ''w'' ''B'' new_master)) ''t''
       = Some (Arr [''B''])
   \<and> entry (run never standardObjectPrototype [Call inMaster ''t'' ''w'' ''A''] new_master) ''t''
       = Some (Arr [''A''])
   \<and> entry (state_of (computeInMasterFrame never standardObjectPrototype inOther
        ''t'' ''w'' ''B''
        (run never standardObjectPrototype [Call inMaster ''t'' ''w'' ''A''] new_master))) ''t''
       = Some (Arr [''A'', ''B''])
   \<and> ampMasterTasks (state_of (computeInMasterFrame never standardObjectPrototype inOther
        ''toString'' ''w'' ''B'' new_master))
       = Some Map.empty"
  by (simp add: eval_defs)

text \<open>
  C6, as the code has it. The fan-out calls the callbacks enqueued for a \<open>taskId\<close> before
  its resolution in the order in which they were enqueued, up to and including the first
  one that throws, and all of them when none throws. Take any actions, from a state in
  which \<open>taskId\<close> has no entry, that call no completion function of \<open>taskId\<close>: calls
  for it and for other task identifiers by any contexts, completions of other tasks.
  When a completion function created for \<open>taskId\<close> by one of these calls is then
  called, that one step extends the trace by exactly the calls of the callbacks passed
  for \<open>taskId\<close>, in call order, that come up to the first throw.
\<close>

theorem fanout_in_enqueue_order:
  assumes "well_formed s" and "tasks_of s k = None"
    and "no_completion_for throws objectPrototype k s actions"
    and "length (completions s) \<le> n"
    and "n < length (completions (run throws objectPrototype actions s))"
    and "snd (completions (run throws objectPrototype actions s) ! n) = k"
  shows "trace (run throws objectPrototype (actions @ [Complete n r]) s) =
           trace (run throws objectPrototype actions s)
             @ map (\<lambda>cb. CbCalled cb r) (until_throw throws r (cbs_for k actions))
     \<and> until_throw throws r (cbs_for k actions)
         = take (length (until_throw throws r (cbs_for k actions))) (cbs_for k actions)
     \<and> ((\<forall>cb \<in> set (cbs_for k actions). \<not> throws cb r) \<longrightarrow>
          until_throw throws r (cbs_for k actions) = cbs_for k actions)"
proof -
  define s' where "s' = run throws objectPrototype actions s"
  have w0: "waiting s k = Some []" using assms(2) by (simp add: waiting_def entry_def)
  have o0: "own_closures (length (completions s)) k s" by (auto simp: own_closures_def)
  obtain a where c: "completions s' ! n = (a, k)"
    using assms(6) by (cases "completions s' ! n") (auto simp: s'_def)
  have n1: "n < length (completions s')" using assms(5) by (simp add: s'_def)
  have clean: "\<not> truthy (js_get objectPrototype k)"
  proof
    assume "truthy (js_get objectPrototype k)"
    from inherited_phase [OF assms(1,2) o0 assms(3) this]
    have "tasks_of s' k = None" "own_closures (length (completions s)) k s'"
      by (simp_all add: s'_def)
    with assms(4) n1 c show False by (auto simp: own_closures_def)
  qed
  from pending_phase [OF assms(1) w0 o0 assms(3) clean]
  have w: "waiting s' k = Some (cbs_for k actions)"
    and o: "own_closures (length (completions s)) k s'" by (simp_all add: s'_def)
  from o assms(4) n1 c have t: "tasks_of s' k = Some a"
    by (auto simp: own_closures_def)
  with w have h: "heap s' a = Arr (cbs_for k actions)"
    by (cases "heap s' a") (simp_all add: waiting_def entry_def)
  from completion_until_throw [OF h, where throws = throws and k = k and r = r] c n1
  have "trace (run throws objectPrototype (actions @ [Complete n r]) s) =
           trace (run throws objectPrototype actions s)
             @ map (\<lambda>cb. CbCalled cb r) (until_throw throws r (cbs_for k actions))"
    by (simp add: s'_def)
  moreover have "until_throw throws r (cbs_for k actions)
         = take (length (until_throw throws r (cbs_for k actions))) (cbs_for k actions)"
    by (rule until_throw_prefix)
  moreover have "(\<forall>cb \<in> set (cbs_for k actions). \<not> throws cb r) \<longrightarrow>
          until_throw throws r (cbs_for k actions) = cbs_for k actions"
    by (simp add: until_throw_all)
  ultimately show ?thesis by blast
qed

theorem fanout_in_enqueue_order_witness:
  "trace (run never standardObjectPrototype
      ([Call inOther ''u'' ''v'' ''X'', Call inMaster ''t'' ''w'' ''A'',
        Call inOther ''t'' ''w'' ''B'', Call inMaster ''u'' ''v'' ''Y'',
        Complete 1 (Num 7), Call inOther ''t'' ''w'' ''C''] @ [Complete 0 (Num 1)]) new_master)
   = trace (run never standardObjectPrototype
      [Call inOther ''u'' ''v'' ''X'', Call inMaster ''t'' ''w'' ''A'',
       Call inOther ''t'' ''w'' ''B'', Call inMaster ''u'' ''v'' ''Y'',
       Complete 1 (Num 7), Call inOther ''t'' ''w'' ''C''] new_master)
     @ [CbCalled ''A'' (Num 1), CbCalled ''B'' (Num 1), CbCalled ''C'' (Num 1)]"
proof -
  let ?actions = "[Call inOther ''u'' ''v'' ''X'', Call inMaster ''t'' ''w'' ''A'',
       Call inOther ''t'' ''w'' ''B'', Call inMaster ''u'' ''v'' ''Y'',
       Complete 1 (Num 7), Call inOther ''t'' ''w'' ''C'']"
  have h1: "tasks_of new_master ''t'' = None"
    by (simp add: tasks_of_def new_master_def)
  have h2: "no_completion_for never standardObjectPrototype ''t'' new_master ?actions"
    by (simp add: eval_defs)
  have h3: "length (completions new_master) \<le> 0"
    by (simp add: new_master_def)
  have h4: "0 < length (completions (run never standardObjectPrototype ?actions new_master))"
    and h5: "snd (completions (run never standardObjectPrototype ?actions new_master) ! 0)
               = ''t''"
    by (simp_all add: eval_defs)
  from fanout_in_enqueue_order [OF well_formed_new_master h1 h2 h3 h4 h5, where r = "Num 1"]
  have "trace (run never standardObjectPrototype (?actions @ [Complete 0 (Num 1)]) new_master) =
      trace (run never standardObjectPrototype ?actions new_master)
        @ map (\<lambda>cb. CbCalled cb (Num 1)) (until_throw never (Num 1) (cbs_for ''t'' ?actions))"
    by blast
  then show ?thesis by simp
qed

text \<open>
  Three callbacks are enqueued and the second throws: the fan-out calls the first and the
  second and never the third, which was enqueued before the resolution like the others.
\<close>

theorem fanout_stops_at_throw_counterexample:
  "cbs_for ''t''
      [Call inMaster ''t'' ''w'' ''first'', Call inOther ''t'' ''w'' ''second'',
       Call inOther ''t'' ''w'' ''third'']
     = [''first'', ''second'', ''third'']
   \<and> cb_calls (trace (run (\<lambda>cb result. cb = ''second'') standardObjectPrototype
      [Call inMaster ''t'' ''w'' ''first'', Call inOther ''t'' ''w'' ''second'',
       Call inOther ''t'' ''w'' ''third'', Complete 0 (Str ''done'')] new_master))
     = [(''first'', Str ''done''), (''second'', Str ''done'')]"
  by (simp add: eval_defs)

end
